theory Spec2Isabelle
  imports Main "HOL-Library.AList"
begin

section \<open>The interpreter of xeus-cling: data model\<close>

text \<open>
  The development follows \<^verbatim>\<open>src/xinterpreter.cpp\<close>. The member functions of
  \<^verbatim>\<open>xcpp::interpreter\<close> become functions on an explicit interpreter state; the
  collaborators that the file only calls (the cling meta-processor, the value printer, the
  block splitter, \<^verbatim>\<open>trim\<close>, the preambles, \<^verbatim>\<open>inspect\<close>) are parameters.
  The regular expressions of \<^verbatim>\<open>std::regex\<close> are given a backtracking semantics of
  their own.
\<close>

subsection \<open>JSON values (\<^verbatim>\<open>xeus::xjson\<close>)\<close>

datatype xjson =
    JNull
  | JString string
  | JArray "xjson list"
  | JObject "(string \<times> xjson) list"

text \<open>Reading a member of an object; \<open>None\<close> when the value has no such member.\<close>

fun json_get :: "xjson \<Rightarrow> string \<Rightarrow> xjson option" where
  "json_get (JObject kvs) k = map_of kvs k"
| "json_get _ k = None"

text \<open>
  \<^verbatim>\<open>j[k] = v\<close>: a null value becomes an object with the one member, an object gets the
  member stored. Indexing any other value throws in the original; the operations below
  index only values that they have built themselves from null, so the last equation is
  never used.
\<close>

fun json_set :: "xjson \<Rightarrow> string \<Rightarrow> xjson \<Rightarrow> xjson" where
  "json_set JNull k v = JObject [(k, v)]"
| "json_set (JObject kvs) k v = JObject (AList.update k v kvs)"
| "json_set j k v = j"

subsection \<open>The engine (\<^verbatim>\<open>cling::MetaProcessor\<close>) as a collaborator\<close>

datatype CompilationResult = kSuccess | kFailure | kMoreInputExpected

text \<open>
  What the three \<^verbatim>\<open>catch\<close> clauses distinguish: a \<^verbatim>\<open>cling::InterpreterException\<close>
  (with the result of its \<^verbatim>\<open>diagnose()\<close> and its \<^verbatim>\<open>what()\<close>), a
  \<^verbatim>\<open>std::exception\<close> (with its \<^verbatim>\<open>what()\<close>), and anything else.
\<close>

datatype fault =
    InterpreterException bool string
  | StdException string
  | OtherFault

text \<open>
  One call \<^verbatim>\<open>m_processor.process(block, compilation_result, &output, true)\<close>.
  A call that returns delivers the error level and has stored a compilation result and a
  value (\<open>None\<close>: a \<^verbatim>\<open>cling::Value\<close> for which \<^verbatim>\<open>hasValue()\<close> is false).
  A call that throws has stored into each of the two out-parameters or has left it as it
  was (\<open>None\<close>: left as it was).
\<close>

datatype 'v invocation =
    Returned int CompilationResult "'v option"
  | Threw fault "CompilationResult option" "'v option option"

record ('e, 'v) collaborators =
  process :: "'e \<Rightarrow> string \<Rightarrow> 'v invocation \<times> 'e"
  cancelContinuation :: "'e \<Rightarrow> 'e"
  print_value :: "'v \<Rightarrow> string"
  split_from_includes :: "string \<Rightarrow> string list"
  trim :: "string \<Rightarrow> string"

subsection \<open>Interpreter state and observable effects\<close>

text \<open>
  Every effect of \<^verbatim>\<open>execute_request_impl\<close> on its surroundings is appended to a log,
  oldest first: a fragment handed to the engine, a call of \<^verbatim>\<open>diagnose()\<close>, text
  written to \<^verbatim>\<open>std::cerr\<close>, \<^verbatim>\<open>cancelContinuation()\<close>,
  \<^verbatim>\<open>publish_execution_result(counter, data, metadata)\<close>, and the flush of
  \<^verbatim>\<open>std::cout\<close>.
\<close>

datatype event =
    Process string
  | Diagnose
  | Cerr string
  | CancelContinuation
  | PublishExecutionResult int xjson xjson
  | CoutFlush

record 'e interpreter_state =
  m_processor :: 'e
  trace :: "event list"

text \<open>
  A preamble (\<^verbatim>\<open>pre.second\<close> in the dispatch loop): \<^verbatim>\<open>is_match(code)\<close> and
  \<^verbatim>\<open>apply(code, kernel_res)\<close>. The latter fills the reply it is given and may do
  anything to the interpreter; the former is a test without effects, which is what the
  specification requires of it.
\<close>

record 'e xpreamble =
  is_match :: "string \<Rightarrow> bool"
  apply_preamble :: "string \<Rightarrow> xjson \<Rightarrow> 'e interpreter_state \<Rightarrow> xjson \<times> 'e interpreter_state"

text \<open>
  Behaviour that C++ leaves undefined is a result of its own: the read of a
  \<^verbatim>\<open>compilation_result\<close> that nothing has written yet, and \<^verbatim>\<open>back()\<close> of an empty
  vector or string.
\<close>

datatype undefined_behaviour = IndeterminateRead | BackOfEmpty

definition back_of :: "'a list \<Rightarrow> undefined_behaviour + 'a" where
  "back_of xs = (case xs of [] \<Rightarrow> Inl BackOfEmpty | _ # _ \<Rightarrow> Inr (last xs))"

section \<open>The operations\<close>

subsection \<open>\<^verbatim>\<open>get_error_reply\<close>\<close>

definition get_error_reply :: "string \<Rightarrow> string \<Rightarrow> string list \<Rightarrow> xjson" where
  "get_error_reply ename evalue trace_back =
     json_set (json_set (json_set (json_set JNull
       ''status'' (JString ''error''))
       ''ename'' (JString ename))
       ''evalue'' (JString evalue))
       ''traceback'' (JArray (map JString trace_back))"

subsection \<open>\<^verbatim>\<open>execute_request_impl\<close>\<close>

text \<open>The effects of the \<^verbatim>\<open>catch\<close> clause that handles a fault.\<close>

fun catch_clause :: "fault \<Rightarrow> event list" where
  "catch_clause (InterpreterException diagnosed what) =
     Diagnose # (if \<not> diagnosed
                 then [Cerr (''Caught an interpreter exception!'' @ [CHR 0x0A] @ what @ [CHR 0x0A])]
                 else [])"
| "catch_clause (StdException what) =
     [Cerr (''Caught a std::exception!'' @ [CHR 0x0A] @ what @ [CHR 0x0A])]"
| "catch_clause OtherFault =
     [Cerr (''Exception occurred. Recovering...'' @ [CHR 0x0A])]"

text \<open>
  How the loop over the blocks ends: with a \<^verbatim>\<open>return kernel_res\<close> from inside, or by
  running off the end with the locals \<^verbatim>\<open>compilation_result\<close> and \<^verbatim>\<open>output\<close>.
\<close>

datatype 'v loop_exit =
    Return xjson
  | Completed "CompilationResult option" "'v option"

text \<open>
  The \<^verbatim>\<open>try\<close> statement of one iteration: the values of \<^verbatim>\<open>errorlevel\<close>,
  \<^verbatim>\<open>compilation_result\<close> and \<^verbatim>\<open>output\<close> after it. The local
  \<^verbatim>\<open>compilation_result\<close> is \<open>None\<close> until something has been stored in it;
  \<^verbatim>\<open>errorlevel\<close> stays 0 when \<^verbatim>\<open>process\<close> throws. Then the loop
  \<^verbatim>\<open>for (const auto& block : blocks)\<close> with its two tests.
\<close>

definition try_process ::
  "('e, 'v) collaborators \<Rightarrow> string \<Rightarrow> CompilationResult option \<Rightarrow> 'v option \<Rightarrow>
   'e interpreter_state \<Rightarrow> int \<times> CompilationResult option \<times> 'v option \<times> 'e interpreter_state" where
  "try_process c block compilation_result output s =
     (case process c (m_processor s) block of (call, e) \<Rightarrow>
      let s1 = s\<lparr>m_processor := e, trace := trace s @ [Process block]\<rparr> in
      (case call of
         Returned n r v \<Rightarrow> (n, Some r, v, s1)
       | Threw f rw vw \<Rightarrow>
           (0,
            (case rw of None \<Rightarrow> compilation_result | Some r \<Rightarrow> Some r),
            (case vw of None \<Rightarrow> output | Some v \<Rightarrow> v),
            s1\<lparr>trace := trace s1 @ catch_clause f\<rparr>)))"

fun execute_blocks ::
  "('e, 'v) collaborators \<Rightarrow> string list \<Rightarrow> CompilationResult option \<Rightarrow> 'v option \<Rightarrow>
   'e interpreter_state \<Rightarrow> undefined_behaviour + ('v loop_exit \<times> 'e interpreter_state)" where
  "execute_blocks c [] compilation_result output s = Inr (Completed compilation_result output, s)"
| "execute_blocks c (block # blocks) compilation_result output s =
     (case try_process c block compilation_result output s of
        (errorlevel, compilation_result', output', s2) \<Rightarrow>
          if errorlevel \<noteq> 0 then
            Inr (Return (get_error_reply ''ename'' ''evalue'' []),
                 s2\<lparr>m_processor := cancelContinuation c (m_processor s2),
                     trace := trace s2 @ [CancelContinuation]\<rparr>)
          else
            (case compilation_result' of
               None \<Rightarrow> Inl IndeterminateRead
             | Some r \<Rightarrow>
                 if r \<noteq> kSuccess then Inr (Return (get_error_reply ''ename'' ''evalue'' []), s2)
                 else execute_blocks c blocks compilation_result' output' s2))"

text \<open>
  The statements after the loop: the test
  \<^verbatim>\<open>output.hasValue() && trim(blocks.back()).back() != ';'\<close> (the right operand is
  evaluated only when the left one holds), the publication, the flush and the reply.
\<close>

definition publish_and_reply ::
  "('e, 'v) collaborators \<Rightarrow> int \<Rightarrow> string list \<Rightarrow> 'v option \<Rightarrow> 'e interpreter_state \<Rightarrow>
   undefined_behaviour + (xjson \<times> 'e interpreter_state)" where
  "publish_and_reply c execution_counter blocks output s =
     (case (case output of
              None \<Rightarrow> Inr None
            | Some v \<Rightarrow>
                (case back_of blocks of
                   Inl u \<Rightarrow> Inl u
                 | Inr b \<Rightarrow>
                     (case back_of (trim c b) of
                        Inl u \<Rightarrow> Inl u
                      | Inr ch \<Rightarrow> Inr (if ch \<noteq> CHR '';'' then Some v else None))))
      of Inl u \<Rightarrow> Inl u
       | Inr to_publish \<Rightarrow>
           let s1 = (case to_publish of
                       None \<Rightarrow> s
                     | Some v \<Rightarrow>
                         s\<lparr>trace := trace s @
                             [PublishExecutionResult execution_counter
                                (json_set JNull ''text/plain'' (JString (print_value c v)))
                                (JObject [])]\<rparr>)
           in Inr (json_set JNull ''status'' (JString ''ok''),
                   s1\<lparr>trace := trace s1 @ [CoutFlush]\<rparr>))"

text \<open>
  \<^verbatim>\<open>code.c_str()\<close>, from which the argument of \<^verbatim>\<open>split_from_includes\<close> is
  built: the characters before the first null character.
\<close>

definition c_str :: "string \<Rightarrow> string" where
  "c_str s = takeWhile (\<lambda>ch. ch \<noteq> CHR 0x00) s"

text \<open>
  The preamble loop \<^verbatim>\<open>for (auto& pre : preamble_manager.preamble)\<close> over the entries
  of the container in its iteration order; \<^verbatim>\<open>kernel_res\<close> is null when it is handed
  to \<^verbatim>\<open>apply\<close>.
\<close>

fun dispatch_preamble ::
  "(string \<times> 'e xpreamble) list \<Rightarrow> string \<Rightarrow> 'e interpreter_state \<Rightarrow>
   (xjson \<times> 'e interpreter_state) option" where
  "dispatch_preamble [] code s = None"
| "dispatch_preamble (pre # rest) code s =
     (if is_match (snd pre) code then Some (apply_preamble (snd pre) code JNull s)
      else dispatch_preamble rest code s)"

definition execute_request_impl ::
  "('e, 'v) collaborators \<Rightarrow> (string \<times> 'e xpreamble) list \<Rightarrow> int \<Rightarrow> string \<Rightarrow>
   'e interpreter_state \<Rightarrow> undefined_behaviour + (xjson \<times> 'e interpreter_state)" where
  "execute_request_impl c preamble execution_counter code s =
     (case dispatch_preamble preamble code s of
        Some res \<Rightarrow> Inr res
      | None \<Rightarrow>
          let blocks = split_from_includes c (c_str code) in
          (case execute_blocks c blocks None None s of
             Inl u \<Rightarrow> Inl u
           | Inr (Return kernel_res, s') \<Rightarrow> Inr (kernel_res, s')
           | Inr (Completed compilation_result output, s') \<Rightarrow>
               publish_and_reply c execution_counter blocks output s'))"

subsection \<open>\<^verbatim>\<open>redirect_output\<close> and \<^verbatim>\<open>restore_output\<close>\<close>

text \<open>
  The stream buffers the two standard streams write to (\<^verbatim>\<open>rdbuf()\<close>), the two saved
  pointers, and the addresses of the interpreter's own two buffers. A pointer is
  \<open>None\<close> when null.
\<close>

record 'b streams =
  cout_rdbuf :: "'b option"
  cerr_rdbuf :: "'b option"
  p_cout_strbuf :: "'b option"
  p_cerr_strbuf :: "'b option"
  m_cout_buffer :: 'b
  m_cerr_buffer :: 'b

definition redirect_output :: "'b streams \<Rightarrow> 'b streams" where
  "redirect_output s =
     (let s1 = s\<lparr>p_cout_strbuf := cout_rdbuf s\<rparr>;
          s2 = s1\<lparr>p_cerr_strbuf := cerr_rdbuf s1\<rparr>;
          s3 = s2\<lparr>cout_rdbuf := Some (m_cout_buffer s2)\<rparr>
      in s3\<lparr>cerr_rdbuf := Some (m_cerr_buffer s3)\<rparr>)"

definition restore_output :: "'b streams \<Rightarrow> 'b streams" where
  "restore_output s =
     (let s1 = s\<lparr>cout_rdbuf := p_cout_strbuf s\<rparr>
      in s1\<lparr>cerr_rdbuf := p_cerr_strbuf s1\<rparr>)"

subsection \<open>Regular expressions (\<^verbatim>\<open>std::regex\<close>, ECMAScript grammar)\<close>

text \<open>
  The constructs that the patterns of the file use: a literal character, the dot (any
  character but a line terminator), the class of word characters, a negated bracket
  class, concatenation, alternation, the greedy quantifiers star and question mark, a
  capturing group with its number, and the end-of-input anchor. The plus quantifier is
  one occurrence followed by a star; a counted repetition is written out; a non-capturing
  group needs no constructor.
\<close>

datatype atom = Lit char | AnyChar | WordChar | NoneOf "char list"

datatype regex =
    Atom atom
  | Seq regex regex
  | Alt regex regex
  | Star regex
  | Opt regex
  | Group nat regex
  | EndOfInput

definition is_word_char :: "char \<Rightarrow> bool" where
  "is_word_char ch =
     (let n = (of_char ch :: nat) in
      (48 \<le> n \<and> n \<le> 57) \<or> (65 \<le> n \<and> n \<le> 90) \<or> n = 95 \<or> (97 \<le> n \<and> n \<le> 122))"

fun atom_matches :: "atom \<Rightarrow> char \<Rightarrow> bool" where
  "atom_matches (Lit l) ch = (ch = l)"
| "atom_matches AnyChar ch = (ch \<noteq> CHR 0x0A \<and> ch \<noteq> CHR 0x0D)"
| "atom_matches WordChar ch = is_word_char ch"
| "atom_matches (NoneOf cs) ch = (ch \<notin> set cs)"

text \<open>
  A state of the matcher: the input that is left, and the text captured so far by each
  group. \<open>matches r st\<close> lists every state in which \<open>r\<close> can end when started in
  \<open>st\<close>, in the order in which a backtracking matcher tries them: the head of the list
  is the match it reports. A quantifier tries one more iteration before it tries to stop,
  forgets the captures of its body at the start of an iteration, and rejects an iteration
  that consumes nothing. Every accepted iteration of a star consumes a character, so the
  length of the input bounds their number.
\<close>

type_synonym mstate = "string \<times> (nat \<times> string) list"

fun groups :: "regex \<Rightarrow> nat list" where
  "groups (Atom a) = []"
| "groups (Seq r1 r2) = groups r1 @ groups r2"
| "groups (Alt r1 r2) = groups r1 @ groups r2"
| "groups (Star r) = groups r"
| "groups (Opt r) = groups r"
| "groups (Group n r) = n # groups r"
| "groups EndOfInput = []"

definition progress :: "mstate \<Rightarrow> mstate \<Rightarrow> bool" where
  "progress st st' = (length (fst st') < length (fst st))"

fun star_iter :: "(mstate \<Rightarrow> mstate list) \<Rightarrow> nat \<Rightarrow> mstate \<Rightarrow> mstate list" where
  "star_iter step 0 st = [st]"
| "star_iter step (Suc n) st =
     concat (map (star_iter step n) (filter (progress st) (step st))) @ [st]"

primrec matches :: "regex \<Rightarrow> mstate \<Rightarrow> mstate list" where
  "matches (Atom a) st =
     (case fst st of
        [] \<Rightarrow> []
      | ch # rest \<Rightarrow> if atom_matches a ch then [(rest, snd st)] else [])"
| "matches (Seq r1 r2) st = concat (map (matches r2) (matches r1 st))"
| "matches (Alt r1 r2) st = matches r1 st @ matches r2 st"
| "matches (Star r) st =
     star_iter (\<lambda>st1. matches r (fst st1, filter (\<lambda>g. fst g \<notin> set (groups r)) (snd st1)))
       (length (fst st)) st"
| "matches (Opt r) st =
     filter (progress st) (matches r (fst st, filter (\<lambda>g. fst g \<notin> set (groups r)) (snd st))) @ [st]"
| "matches (Group n r) st =
     map (\<lambda>st'. (fst st', AList.update n (take (length (fst st) - length (fst st')) (fst st)) (snd st')))
       (matches r st)"
| "matches EndOfInput st = (if fst st = [] then [st] else [])"

text \<open>
  \<^verbatim>\<open>std::regex_search\<close>: the match at the leftmost position that has one.
  \<open>position\<close> is its offset in the searched string, \<open>matched\<close> is sub-match 0.
\<close>

record match_results =
  position :: nat
  matched :: string
  sub_matches :: "(nat \<times> string) list"

fun regex_search_from :: "regex \<Rightarrow> nat \<Rightarrow> string \<Rightarrow> match_results option" where
  "regex_search_from r skipped s =
     (case matches r (s, []) of
        st # _ \<Rightarrow> Some \<lparr>position = skipped, matched = take (length s - length (fst st)) s,
                        sub_matches = snd st\<rparr>
      | [] \<Rightarrow> (case s of [] \<Rightarrow> None | _ # rest \<Rightarrow> regex_search_from r (Suc skipped) rest))"

definition regex_search :: "regex \<Rightarrow> string \<Rightarrow> match_results option" where
  "regex_search r s = regex_search_from r 0 s"

text \<open>
  A replacement format is a sequence of literal text and references \<^verbatim>\<open>$n\<close> to
  sub-matches; a group that did not take part in the match stands for the empty string.
\<close>

datatype fmt_item = Text string | Sub nat

definition format :: "fmt_item list \<Rightarrow> (nat \<times> string) list \<Rightarrow> string" where
  "format fmt subs =
     concat (map (\<lambda>item. case item of
                            Text t \<Rightarrow> t
                          | Sub n \<Rightarrow> (case map_of subs n of None \<Rightarrow> [] | Some t \<Rightarrow> t)) fmt)"

lemma star_iter_suffix:
  assumes step: "\<And>st st'. st' \<in> set (step st) \<Longrightarrow> length (fst st') \<le> length (fst st)"
  shows "st' \<in> set (star_iter step n st) \<Longrightarrow> length (fst st') \<le> length (fst st)"
proof (induction n arbitrary: st st')
  case 0
  then show ?case by simp
next
  case (Suc n)
  from Suc.prems consider "st' = st"
    | mid where "mid \<in> set (step st)" "st' \<in> set (star_iter step n mid)"
    by auto
  then show ?case
  proof cases
    case 1
    then show ?thesis by simp
  next
    case 2
    from Suc.IH [OF 2(2)] step [OF 2(1)] show ?thesis by simp
  qed
qed

lemma matches_suffix:
  "st' \<in> set (matches r st) \<Longrightarrow> length (fst st') \<le> length (fst st)"
proof (induction r arbitrary: st st')
  case (Atom a)
  then show ?case by (cases "fst st") (auto split: if_splits)
next
  case (Seq r1 r2)
  from Seq.prems obtain mid where "mid \<in> set (matches r1 st)" "st' \<in> set (matches r2 mid)"
    by auto
  from Seq.IH(1) [OF this(1)] Seq.IH(2) [OF this(2)] show ?case by simp
next
  case (Alt r1 r2)
  from Alt.prems have "st' \<in> set (matches r1 st) \<or> st' \<in> set (matches r2 st)" by simp
  then show ?case using Alt.IH by blast
next
  case (Star r)
  have "\<And>a b. b \<in> set (matches r (fst a, filter (\<lambda>g. fst g \<notin> set (groups r)) (snd a))) \<Longrightarrow>
          length (fst b) \<le> length (fst a)"
  proof -
    fix a b
    assume "b \<in> set (matches r (fst a, filter (\<lambda>g. fst g \<notin> set (groups r)) (snd a)))"
    from Star.IH [OF this] show "length (fst b) \<le> length (fst a)" by simp
  qed
  from star_iter_suffix [where step = "\<lambda>st1. matches r (fst st1, filter (\<lambda>g. fst g \<notin> set (groups r)) (snd st1))", OF this]
  show ?case using Star.prems by simp
next
  case (Opt r)
  from Opt.prems have
    "st' = st \<or> st' \<in> set (matches r (fst st, filter (\<lambda>g. fst g \<notin> set (groups r)) (snd st)))"
    by auto
  then show ?case
  proof
    assume "st' = st"
    then show ?thesis by simp
  next
    assume "st' \<in> set (matches r (fst st, filter (\<lambda>g. fst g \<notin> set (groups r)) (snd st)))"
    from Opt.IH [OF this] show ?thesis by simp
  qed
next
  case (Group n r)
  from Group.prems obtain mid where "mid \<in> set (matches r st)" "fst st' = fst mid"
    by auto
  with Group.IH [OF this(1)] show ?case by simp
next
  case EndOfInput
  then show ?case by (auto split: if_splits)
qed

lemma regex_search_from_bound:
  "regex_search_from r k s = Some m \<Longrightarrow> length (matched m) \<le> length s"
proof (induction s arbitrary: k)
  case Nil
  then show ?case by (auto split: list.splits)
next
  case (Cons ch s)
  show ?case
  proof (cases "matches r (ch # s, [])")
    case Nil
    with Cons.prems have "regex_search_from r (Suc k) s = Some m" by simp
    from Cons.IH [OF this] show ?thesis by simp
  next
    case (Cons st sts)
    with Cons.prems show ?thesis by auto
  qed
qed

lemma filter_progress_head:
  assumes "filter (progress (s, caps)) xs = st # sts"
  shows "length (fst st) < length s"
proof -
  have "st \<in> set (filter (progress (s, caps)) xs)"
    using assms by simp
  then show ?thesis by (simp add: progress_def)
qed

lemma regex_search_nonempty:
  assumes "regex_search r s = Some m" and "matched m \<noteq> []"
  shows "s \<noteq> []"
proof
  assume "s = []"
  with assms(1) have "length (matched m) \<le> 0"
    using regex_search_from_bound [of r 0 s m] by (simp add: regex_search_def)
  with assms(2) show False by simp
qed

text \<open>
  \<^verbatim>\<open>std::regex_replace\<close>: every match, found from left to right, is replaced by
  the expanded format, and the text between the matches is copied. After a match, the
  search goes on where the match ended; after an empty match it first looks for a
  non-empty match at that very position, and otherwise copies one character and searches
  behind it.
\<close>

function regex_replace_loop :: "regex \<Rightarrow> fmt_item list \<Rightarrow> bool \<Rightarrow> string \<Rightarrow> string" where
  "regex_replace_loop r fmt after_empty s =
     (if after_empty then
        (case filter (progress (s, [])) (matches r (s, [])) of
           st # _ \<Rightarrow> format fmt (snd st) @ regex_replace_loop r fmt False (fst st)
         | [] \<Rightarrow> (case s of [] \<Rightarrow> [] | ch # rest \<Rightarrow> ch # regex_replace_loop r fmt False rest))
      else
        (case regex_search r s of
           None \<Rightarrow> s
         | Some m \<Rightarrow>
             take (position m) s @ format fmt (sub_matches m) @
             (if matched m = [] then
                (if position m = length s then []
                 else regex_replace_loop r fmt True (drop (position m) s))
              else regex_replace_loop r fmt False (drop (position m + length (matched m)) s))))"
  by pat_completeness auto
termination
proof (relation "measure (\<lambda>(r, fmt, after_empty, s). 2 * length s + (if after_empty then 0 else 1))")
  fix r :: regex and s :: string and m :: match_results
  assume "regex_search r s = Some m" and "matched m \<noteq> []"
  then have "0 < length s" and "0 < length (matched m)"
    using regex_search_nonempty by auto
  then have "length s - (position m + length (matched m)) < length s"
    by arith
  then show "((r, fmt, False, drop (position m + length (matched m)) s), (r, fmt, after_empty, s))
      \<in> measure (\<lambda>(r, fmt, after_empty, s). 2 * length s + (if after_empty then 0 else 1))"
    for fmt after_empty
    by simp
qed (auto dest: filter_progress_head)

definition regex_replace :: "string \<Rightarrow> regex \<Rightarrow> fmt_item list \<Rightarrow> string" where
  "regex_replace s r fmt = regex_replace_loop r fmt False s"

subsection \<open>The rewrites of \<^verbatim>\<open>complete_request_impl\<close>\<close>

text \<open>
  The four patterns of the loop over the completion candidates, in the order of the
  source. In words, each escaped character standing for itself:
  \<^enum> an opening bracket and a hash, any characters, a hash and a closing bracket;
  \<^enum> group 1, a space or a star, once or more; group 2, one or more word characters;
    group 3, a hash and a closing angle;
  \<^enum> any number of spaces; group 1, a hash and a closing angle;
  \<^enum> an opening angle and a hash; group 1, any number of characters that are neither a
    hash nor a closing angle; a hash and a closing angle.
\<close>

definition re_definition :: regex where
  "re_definition =
     Seq (Atom (Lit CHR ''[''))
       (Seq (Atom (Lit CHR ''#''))
         (Seq (Star (Atom AnyChar))
           (Seq (Atom (Lit CHR ''#'')) (Atom (Lit CHR '']'')))))"

definition re_variable_name :: regex where
  "re_variable_name =
     Seq (Seq (Group 1 (Alt (Atom (Lit CHR '' '')) (Atom (Lit CHR ''*''))))
              (Star (Group 1 (Alt (Atom (Lit CHR '' '')) (Atom (Lit CHR ''*''))))))
      (Seq (Group 2 (Seq (Atom WordChar) (Star (Atom WordChar))))
           (Group 3 (Seq (Atom (Lit CHR ''#'')) (Atom (Lit CHR ''>'')))))"

definition re_trailing_space :: regex where
  "re_trailing_space =
     Seq (Star (Atom (Lit CHR '' '')))
         (Group 1 (Seq (Atom (Lit CHR ''#'')) (Atom (Lit CHR ''>''))))"

definition re_placeholder :: regex where
  "re_placeholder =
     Seq (Atom (Lit CHR ''<''))
       (Seq (Atom (Lit CHR ''#''))
         (Seq (Group 1 (Star (Atom (NoneOf ''#>''))))
           (Seq (Atom (Lit CHR ''#'')) (Atom (Lit CHR ''>'')))))"

text \<open>The body of the loop \<^verbatim>\<open>for (auto& r : result)\<close>: the four assignments to \<open>r\<close>.\<close>

definition rewrite_candidate :: "string \<Rightarrow> string" where
  "rewrite_candidate r =
     (let r1 = regex_replace r re_definition [];
          r2 = regex_replace r1 re_variable_name [Sub 1, Sub 3];
          r3 = regex_replace r2 re_trailing_space [Sub 1]
      in regex_replace r3 re_placeholder [Sub 1])"

text \<open>Whether a string occurs in another one.\<close>

fun contains :: "string \<Rightarrow> string \<Rightarrow> bool" where
  "contains pat [] = (pat = [])"
| "contains pat (ch # s) = (take (length pat) (ch # s) = pat \<or> contains pat s)"

subsection \<open>\<^verbatim>\<open>inspect_request_impl\<close>\<close>

text \<open>
  \<^verbatim>\<open>std::string::substr(pos, n)\<close> throws when \<open>pos\<close> is beyond the end of the
  string. Its count is a \<^verbatim>\<open>size_t\<close>: the \<^verbatim>\<open>int\<close> that \<^verbatim>\<open>inspect_request_impl\<close>
  passes is converted modulo \<open>2 ^ 64\<close>. The search of \<^verbatim>\<open>std::regex\<close> fails when
  the matcher runs out of stack: with an error of the library or with the end of the
  process. \<^verbatim>\<open>inspect_request_impl\<close> handles neither failure.
\<close>

datatype exception = out_of_range | regex_exhausted

definition substr :: "string \<Rightarrow> nat \<Rightarrow> nat \<Rightarrow> exception + string" where
  "substr s pos n = (if length s < pos then Inl out_of_range else Inr (take n (drop pos s)))"

definition size_t_of_int :: "int \<Rightarrow> nat" where
  "size_t_of_int i = nat (i mod 2 ^ 64)"

text \<open>
  The matcher of the library is a depth-first search that calls itself for every
  character it matches, so on each path it tries its stack grows with the characters
  consumed on that path. \<open>max_depth\<close>, a constant of the platform, is the number of
  characters that one path can consume before the stack is exhausted. The search from a
  start position tries the paths in the order of \<open>matches\<close>; a path is either a state
  reached or the exhaustion of the stack, which ends the whole search. \<open>least\<close> is the
  length of the input that is left when \<open>max_depth\<close> characters have been consumed
  since the start position.
\<close>

datatype 'a outcome = Reached 'a | Exhausted

definition and_then :: "'a outcome list \<Rightarrow> ('a \<Rightarrow> 'b outcome list) \<Rightarrow> 'b outcome list" where
  "and_then outs f =
     concat (map (\<lambda>out. case out of Reached x \<Rightarrow> f x | Exhausted \<Rightarrow> [Exhausted]) outs)"

primrec star_iter_within ::
  "(mstate \<Rightarrow> mstate outcome list) \<Rightarrow> nat \<Rightarrow> mstate \<Rightarrow> mstate outcome list" where
  "star_iter_within step 0 = (\<lambda>st. [Reached st])"
| "star_iter_within step (Suc n) =
     (\<lambda>st. and_then (step st)
              (\<lambda>st'. if progress st st' then star_iter_within step n st' else []) @
            [Reached st])"

primrec matches_within :: "nat \<Rightarrow> regex \<Rightarrow> mstate \<Rightarrow> mstate outcome list" where
  "matches_within least (Atom a) st =
     (case fst st of
        [] \<Rightarrow> []
      | ch # rest \<Rightarrow>
          if atom_matches a ch
          then (if length rest < least then [Exhausted] else [Reached (rest, snd st)])
          else [])"
| "matches_within least (Seq r1 r2) st =
     and_then (matches_within least r1 st) (matches_within least r2)"
| "matches_within least (Alt r1 r2) st = matches_within least r1 st @ matches_within least r2 st"
| "matches_within least (Star r) st =
     star_iter_within
       (\<lambda>st1. matches_within least r (fst st1, filter (\<lambda>g. fst g \<notin> set (groups r)) (snd st1)))
       (length (fst st)) st"
| "matches_within least (Opt r) st =
     and_then (matches_within least r (fst st, filter (\<lambda>g. fst g \<notin> set (groups r)) (snd st)))
       (\<lambda>st'. if progress st st' then [Reached st'] else []) @
     [Reached st]"
| "matches_within least (Group n r) st =
     and_then (matches_within least r st)
       (\<lambda>st'. [Reached (fst st',
                  AList.update n (take (length (fst st) - length (fst st')) (fst st)) (snd st'))])"
| "matches_within least EndOfInput st = (if fst st = [] then [Reached st] else [])"

text \<open>
  \<^verbatim>\<open>std::regex_search\<close> on a stack of that depth: the first path of the leftmost
  start position that has one decides, by the match it reaches or by exhausting the
  stack.
\<close>

fun regex_search_within ::
  "nat \<Rightarrow> regex \<Rightarrow> nat \<Rightarrow> string \<Rightarrow> exception + match_results option" where
  "regex_search_within max_depth r skipped s =
     (case matches_within (length s - max_depth) r (s, []) of
        [] \<Rightarrow>
          (case s of
             [] \<Rightarrow> Inr None
           | _ # rest \<Rightarrow> regex_search_within max_depth r (Suc skipped) rest)
      | Exhausted # _ \<Rightarrow> Inl regex_exhausted
      | Reached st # _ \<Rightarrow>
          Inr (Some \<lparr>position = skipped, matched = take (length s - length (fst st)) s,
                      sub_matches = snd st\<rparr>))"

text \<open>
  The outcomes of a search on a stack agree with a list of states when they are these
  states, or a part of them from the front followed by the exhaustion of the stack.
\<close>

definition agrees :: "'a outcome list \<Rightarrow> 'a list \<Rightarrow> bool" where
  "agrees outs xs =
     (outs = map Reached xs \<or> (\<exists>k rest. outs = map Reached (take k xs) @ Exhausted # rest))"

text \<open>
  The pattern \<^verbatim>\<open>exp\<close>: any number of word characters, then optionally two colons,
  or an opening angle, any characters and a closing angle, or the same with parentheses,
  or with square brackets. The pattern \<^verbatim>\<open>re_method\<close>: group 1, \<^verbatim>\<open>exp\<close> and an
  optional dot, any number of times; then the end of the input.
\<close>

definition exp :: regex where
  "exp =
     Seq (Star (Atom WordChar))
       (Opt (Alt (Seq (Atom (Lit CHR '':'')) (Atom (Lit CHR '':'')))
            (Alt (Seq (Atom (Lit CHR ''<'')) (Seq (Star (Atom AnyChar)) (Atom (Lit CHR ''>''))))
            (Alt (Seq (Atom (Lit CHR ''('')) (Seq (Star (Atom AnyChar)) (Atom (Lit CHR '')''))))
                 (Seq (Atom (Lit CHR ''['')) (Seq (Star (Atom AnyChar)) (Atom (Lit CHR '']''))))))))"

definition re_method :: regex where
  "re_method = Seq (Star (Group 1 (Seq exp (Opt (Atom (Lit CHR ''.'')))))) EndOfInput"

text \<open>
  \<^verbatim>\<open>inspect\<close> is handed sub-match 0, the null reply and the interpreter; the reply it
  leaves is returned. A failure of \<^verbatim>\<open>substr\<close> or of the search is not caught: it
  is the result of the function.
\<close>

definition inspect_request_impl ::
  "nat \<Rightarrow> (string \<Rightarrow> xjson \<Rightarrow> 'e interpreter_state \<Rightarrow> xjson \<times> 'e interpreter_state) \<Rightarrow>
   string \<Rightarrow> int \<Rightarrow> 'e interpreter_state \<Rightarrow> exception + (xjson \<times> 'e interpreter_state)" where
  "inspect_request_impl max_depth inspect code cursor_pos s =
     (case substr code 0 (size_t_of_int cursor_pos) of
        Inl ex \<Rightarrow> Inl ex
      | Inr dummy \<Rightarrow>
          (case regex_search_within max_depth re_method 0 dummy of
             Inl ex \<Rightarrow> Inl ex
           | Inr (Some magic) \<Rightarrow> Inr (inspect (matched magic) JNull s)
           | Inr None \<Rightarrow> Inr (JNull, s)))"

section \<open>Collaborators outside the file\<close>

subsection \<open>The preamble registry\<close>

text \<open>
  Modelled from the spec: the container \<^verbatim>\<open>preamble_manager.preamble\<close> and
  \<^verbatim>\<open>register_preamble\<close> are declared in \<^verbatim>\<open>xpreamble.hpp\<close>, which is not among the
  sources. The spec describes an insertion-ordered mapping from name to preamble:
  registering inserts at the end of the order, and registering a name again overwrites
  its handler without reordering.
\<close>

definition register_preamble ::
  "string \<Rightarrow> 'e xpreamble \<Rightarrow> (string \<times> 'e xpreamble) list \<Rightarrow> (string \<times> 'e xpreamble) list" where
  "register_preamble name pre preamble = AList.update name pre preamble"

text \<open>\<^verbatim>\<open>init_preamble\<close> registers three handlers, which are constructed elsewhere.\<close>

definition init_preamble ::
  "'e xpreamble \<Rightarrow> 'e xpreamble \<Rightarrow> 'e xpreamble \<Rightarrow> (string \<times> 'e xpreamble) list" where
  "init_preamble xintrospection xmagics_manager xsystem =
     register_preamble ''shell'' xsystem
       (register_preamble ''magics'' xmagics_manager
         (register_preamble ''introspection'' xintrospection []))"

subsection \<open>\<^verbatim>\<open>trim\<close> and \<^verbatim>\<open>split_from_includes\<close>\<close>

text \<open>
  Modelled from the spec: \<^verbatim>\<open>trim\<close> is defined in the parser of the repository, which
  is not among the sources. The spec has leading and trailing whitespace trimmed.
\<close>

definition is_space :: "char \<Rightarrow> bool" where
  "is_space ch = (ch = CHR '' '' \<or> ch = CHR 0x09 \<or> ch = CHR 0x0A \<or> ch = CHR 0x0D)"

definition trim_spec :: "string \<Rightarrow> string" where
  "trim_spec s = rev (dropWhile is_space (rev (dropWhile is_space s)))"

text \<open>
  Modelled from the spec: \<^verbatim>\<open>split_from_includes\<close> is defined in the parser of the
  repository, which is not among the sources. The spec has every line with an inclusion
  directive isolated as a fragment of its own, the runs of other lines grouped into one
  fragment each, every fragment trimmed, and an input with no directive returned as a
  single trimmed fragment.
\<close>

fun split_lines :: "string \<Rightarrow> string list" where
  "split_lines [] = [[]]"
| "split_lines (ch # s) =
     (if ch = CHR 0x0A then [] # split_lines s
      else (case split_lines s of [] \<Rightarrow> [[ch]] | l # ls \<Rightarrow> (ch # l) # ls))"

fun group_fragments :: "string \<Rightarrow> string list \<Rightarrow> string list" where
  "group_fragments run [] = (if trim_spec run = [] then [] else [trim_spec run])"
| "group_fragments run (l # ls) =
     (if contains ''#include'' l
      then (if trim_spec run = [] then [] else [trim_spec run]) @ trim_spec l # group_fragments [] ls
      else group_fragments (run @ l @ [CHR 0x0A]) ls)"

definition split_from_includes_spec :: "string \<Rightarrow> string list" where
  "split_from_includes_spec code =
     (if contains ''#include'' code then group_fragments [] (split_lines code)
      else [trim_spec code])"

subsection \<open>An engine and preambles for the scenarios\<close>

text \<open>
  The engine of the scenarios answers the successive calls of \<^verbatim>\<open>process\<close> from a
  script, and with success and no value once the script is used up. Its values are
  strings that print as themselves.
\<close>

definition scripted :: "(string invocation list, string) collaborators" where
  "scripted =
     \<lparr>process = (\<lambda>e block. case e of
                                [] \<Rightarrow> (Returned 0 kSuccess None, [])
                              | call # rest \<Rightarrow> (call, rest)),
      cancelContinuation = (\<lambda>e. e),
      print_value = (\<lambda>v. v),
      split_from_includes = split_from_includes_spec,
      trim = trim_spec\<rparr>"


text \<open>
  A preamble of the scenarios matches the submissions that satisfy a test and answers
  with a fixed reply, leaving the interpreter as it is.
\<close>

definition answering :: "(string \<Rightarrow> bool) \<Rightarrow> xjson \<Rightarrow> 'e xpreamble" where
  "answering test reply =
     \<lparr>is_match = test, apply_preamble = (\<lambda>code kernel_res s. (reply, s))\<rparr>"

text \<open>
  The answers of the engine to a sequence of blocks, each call starting from the state
  the one before has left.
\<close>

fun invocations :: "('e, 'v) collaborators \<Rightarrow> 'e \<Rightarrow> string list \<Rightarrow> 'v invocation list" where
  "invocations c e [] = []"
| "invocations c e (block # blocks) =
     (case process c e block of (call, e') \<Rightarrow> call # invocations c e' blocks)"

text \<open>The blocks handed to the engine according to a log.\<close>

fun processed :: "event list \<Rightarrow> string list" where
  "processed [] = []"
| "processed (Process b # evs) = b # processed evs"
| "processed (_ # evs) = processed evs"

subsection \<open>The scenario registry\<close>

text \<open>
  Three preambles registered as \<^verbatim>\<open>init_preamble\<close> does: introspection answers the
  submissions that contain a question mark, the magics answer those that start with a
  percent sign (here with an error of their own), and the shell answers those that start
  with an exclamation mark.
\<close>

definition scenario_preambles :: "(string \<times> string invocation list xpreamble) list" where
  "scenario_preambles =
     init_preamble
       (answering (contains ''?'') (JObject [(''status'', JString ''ok''), (''found'', JString ''true'')]))
       (answering (\<lambda>code. take 1 code = ''%'') (get_error_reply ''UsageError'' ''unknown magic'' []))
       (answering (\<lambda>code. take 1 code = ''!'') (JObject [(''status'', JString ''ok'')]))"

section \<open>Properties\<close>

subsection \<open>Auxiliary facts\<close>

lemma processed_append: "processed (xs @ ys) = processed xs @ processed ys"
  by (induction xs rule: processed.induct) simp_all

lemma processed_catch_clause: "processed (catch_clause f) = []"
  by (cases f) simp_all

lemma dispatch_first_match:
  "\<forall>r\<in>set pre. \<not> is_match (snd r) code \<Longrightarrow> is_match (snd q) code \<Longrightarrow>
   dispatch_preamble (pre @ q # post) code s = Some (apply_preamble (snd q) code JNull s)"
  by (induction pre) simp_all

lemma dispatch_no_match:
  "\<forall>r\<in>set preamble. \<not> is_match (snd r) code \<Longrightarrow> dispatch_preamble preamble code s = None"
  by (induction preamble) simp_all

lemma register_preamble_fresh:
  "name \<notin> fst ` set preamble \<Longrightarrow>
   register_preamble name pre preamble = preamble @ [(name, pre)]"
  by (induction preamble) (auto simp: register_preamble_def)

lemma register_preamble_again:
  "name \<in> fst ` set preamble \<Longrightarrow>
   map fst (register_preamble name pre preamble) = map fst preamble"
  by (auto simp: register_preamble_def update_keys)

lemma scenario_preambles_list:
  "scenario_preambles =
     [(''introspection'',
       answering (contains ''?'') (JObject [(''status'', JString ''ok''), (''found'', JString ''true'')])),
      (''magics'',
       answering (\<lambda>code. take 1 code = ''%'') (get_error_reply ''UsageError'' ''unknown magic'' [])),
      (''shell'',
       answering (\<lambda>code. take 1 code = ''!'') (JObject [(''status'', JString ''ok'')]))]"
  by (simp add: scenario_preambles_def init_preamble_def register_preamble_def)

lemma scenario_no_match:
  "\<not> contains ''?'' code \<Longrightarrow> take 1 code \<noteq> ''%'' \<Longrightarrow> take 1 code \<noteq> ''!'' \<Longrightarrow>
   \<forall>q\<in>set scenario_preambles. \<not> is_match (snd q) code"
  by (simp add: scenario_preambles_list answering_def)

lemma try_process_Returned:
  "process c (m_processor s) block = (Returned n r v, e) \<Longrightarrow>
   try_process c block cr out s =
     (n, Some r, v, s\<lparr>m_processor := e, trace := trace s @ [Process block]\<rparr>)"
  by (simp add: try_process_def)

lemma try_process_Threw:
  "process c (m_processor s) block = (Threw f rw vw, e) \<Longrightarrow>
   try_process c block cr out s =
     (0, (case rw of None \<Rightarrow> cr | Some r \<Rightarrow> Some r), (case vw of None \<Rightarrow> out | Some v \<Rightarrow> v),
      s\<lparr>m_processor := e, trace := trace s @ Process block # catch_clause f\<rparr>)"
  by (simp add: try_process_def)

lemma catch_clause_quiet:
  "CancelContinuation \<notin> set (catch_clause f) \<and> PublishExecutionResult k d m \<notin> set (catch_clause f)"
  by (cases f) simp_all

lemma try_process_trace:
  assumes "try_process c block cr out s = (n, cr', out', s2)"
  shows "\<exists>evs. trace s2 = trace s @ Process block # evs \<and> processed evs = [] \<and>
           CancelContinuation \<notin> set evs \<and> (\<forall>k d m. PublishExecutionResult k d m \<notin> set evs)"
proof -
  obtain call e where p: "process c (m_processor s) block = (call, e)"
    by (cases "process c (m_processor s) block") auto
  show ?thesis
  proof (cases call)
    case (Returned n1 r v)
    with p assms have "trace s2 = trace s @ [Process block]"
      by (auto simp: try_process_Returned)
    then show ?thesis by simp
  next
    case (Threw f rw vw)
    with p assms have "trace s2 = trace s @ Process block # catch_clause f"
      by (auto simp: try_process_Threw)
    then show ?thesis
      using catch_clause_quiet processed_catch_clause by blast
  qed
qed

lemma execute_blocks_append:
  "execute_blocks c (pre @ rest) cr out s =
     (case execute_blocks c pre cr out s of
        Inr (Completed cr' out', s') \<Rightarrow> execute_blocks c rest cr' out' s'
      | other \<Rightarrow> other)"
proof (induction pre arbitrary: cr out s)
  case Nil
  show ?case by simp
next
  case (Cons b pre)
  show ?case
    by (cases "try_process c b cr out s") (simp add: Cons.IH split: option.splits)
qed

lemma execute_blocks_completed_trace:
  "execute_blocks c blocks cr out s = Inr (Completed cr' out', s') \<Longrightarrow>
   \<exists>evs. trace s' = trace s @ evs \<and> processed evs = blocks \<and> CancelContinuation \<notin> set evs
      \<and> (\<forall>k d m. PublishExecutionResult k d m \<notin> set evs)"
proof (induction blocks arbitrary: cr out s)
  case Nil
  then show ?case by simp
next
  case (Cons b blocks)
  obtain n cr1 out1 s2 where t: "try_process c b cr out s = (n, cr1, out1, s2)"
    by (cases "try_process c b cr out s") auto
  from try_process_trace [OF t] obtain evs1 where
    e1: "trace s2 = trace s @ Process b # evs1" "processed evs1 = []" "CancelContinuation \<notin> set evs1"
        "\<forall>k d m. PublishExecutionResult k d m \<notin> set evs1" by blast
  from Cons.prems t have rest: "execute_blocks c blocks cr1 out1 s2 = Inr (Completed cr' out', s')"
    by (auto split: if_splits option.splits)
  from Cons.IH [OF rest] obtain evs2 where
    e2: "trace s' = trace s2 @ evs2" "processed evs2 = blocks" "CancelContinuation \<notin> set evs2"
        "\<forall>k d m. PublishExecutionResult k d m \<notin> set evs2" by blast
  show ?case
    apply (rule exI [of _ "Process b # evs1 @ evs2"])
    using e1 e2 by (simp add: processed_append)
qed

lemma execute_blocks_Return:
  "execute_blocks c blocks cr out s = Inr (Return k, s') \<Longrightarrow> k = get_error_reply ''ename'' ''evalue'' []"
proof (induction blocks arbitrary: cr out s)
  case Nil
  then show ?case by simp
next
  case (Cons b blocks)
  obtain n cr1 out1 s2 where t: "try_process c b cr out s = (n, cr1, out1, s2)"
    by (cases "try_process c b cr out s") auto
  with Cons.prems Cons.IH show ?case
    by (auto split: if_splits option.splits)
qed

lemma execute_blocks_step_Returned:
  "process c (m_processor s) block = (Returned n r v, e) \<Longrightarrow>
   execute_blocks c (block # blocks) cr out s =
     (if n \<noteq> 0 then
        Inr (Return (get_error_reply ''ename'' ''evalue'' []),
             s\<lparr>m_processor := cancelContinuation c e, trace := trace s @ [Process block, CancelContinuation]\<rparr>)
      else if r \<noteq> kSuccess then
        Inr (Return (get_error_reply ''ename'' ''evalue'' []),
             s\<lparr>m_processor := e, trace := trace s @ [Process block]\<rparr>)
      else execute_blocks c blocks (Some kSuccess) v
             (s\<lparr>m_processor := e, trace := trace s @ [Process block]\<rparr>))"
  by (simp add: try_process_Returned)

lemma execute_blocks_step_Threw:
  "process c (m_processor s) block = (Threw f rw vw, e) \<Longrightarrow>
   execute_blocks c (block # blocks) cr out s =
     (case (case rw of None \<Rightarrow> cr | Some r \<Rightarrow> Some r) of
        None \<Rightarrow> Inl IndeterminateRead
      | Some r \<Rightarrow>
          if r \<noteq> kSuccess then
            Inr (Return (get_error_reply ''ename'' ''evalue'' []),
                 s\<lparr>m_processor := e, trace := trace s @ Process block # catch_clause f\<rparr>)
          else execute_blocks c blocks (Some kSuccess) (case vw of None \<Rightarrow> out | Some v \<Rightarrow> v)
                 (s\<lparr>m_processor := e, trace := trace s @ Process block # catch_clause f\<rparr>))"
  by (simp add: try_process_Threw split: option.splits)

lemma error_reply_members:
  "json_get (get_error_reply ename evalue tb) ''status'' = Some (JString ''error'')"
  "json_get (get_error_reply ename evalue tb) ''ename'' = Some (JString ename)"
  "json_get (get_error_reply ename evalue tb) ''evalue'' = Some (JString evalue)"
  "json_get (get_error_reply ename evalue tb) ''traceback'' = Some (JArray (map JString tb))"
  by (simp_all add: get_error_reply_def)

lemma publish_and_reply_ok:
  assumes "publish_and_reply c execution_counter blocks out s = Inr (kernel_res, s')"
  shows "kernel_res = json_set JNull ''status'' (JString ''ok'')"
proof (cases "case out of
              None \<Rightarrow> Inr None
            | Some v \<Rightarrow>
                (case back_of blocks of
                   Inl u \<Rightarrow> Inl u
                 | Inr b \<Rightarrow>
                     (case back_of (trim c b) of
                        Inl u \<Rightarrow> Inl u
                      | Inr ch \<Rightarrow> Inr (if ch \<noteq> CHR '';'' then Some v else None)))")
  case (Inl u)
  with assms show ?thesis by (simp add: publish_and_reply_def)
next
  case (Inr p)
  with assms show ?thesis by (simp add: publish_and_reply_def Let_def)
qed




lemma invocations_length: "length (invocations c e blocks) = length blocks"
  by (induction blocks arbitrary: e) (auto split: prod.splits)


lemma all_succeed_loop:
  "invocations c (m_processor s) blocks = map (Returned 0 kSuccess) vs \<Longrightarrow>
   \<exists>s'. execute_blocks c blocks cr out s =
           Inr (Completed (if blocks = [] then cr else Some kSuccess)
                          (if blocks = [] then out else last vs), s') \<and>
         trace s' = trace s @ map Process blocks"
proof (induction blocks arbitrary: vs cr out s)
  case Nil
  then show ?case by simp
next
  case (Cons b blocks)
  obtain call e where p: "process c (m_processor s) b = (call, e)"
    by (cases "process c (m_processor s) b") auto
  with Cons.prems obtain v vs' where
    vs: "vs = v # vs'" "call = Returned 0 kSuccess v" "invocations c e blocks = map (Returned 0 kSuccess) vs'"
    by (cases vs) auto
  let ?s1 = "s\<lparr>m_processor := e, trace := trace s @ [Process b]\<rparr>"
  from vs(3) have "invocations c (m_processor ?s1) blocks = map (Returned 0 kSuccess) vs'" by simp
  from Cons.IH [OF this, of "Some kSuccess" v] obtain s' where
    ih: "execute_blocks c blocks (Some kSuccess) v ?s1 =
           Inr (Completed (if blocks = [] then Some kSuccess else Some kSuccess)
                          (if blocks = [] then v else last vs'), s')"
        "trace s' = trace ?s1 @ map Process blocks" by blast
  have "length vs' = length blocks"
    using vs(3) invocations_length [of c e blocks] by simp
  then have e: "(vs' = []) = (blocks = [])" by auto
  have step: "execute_blocks c (b # blocks) cr out s = execute_blocks c blocks (Some kSuccess) v ?s1"
    using p vs(2) by (simp add: execute_blocks_step_Returned del: execute_blocks.simps(2))
  show ?case
    using ih e by (auto simp add: step vs(1) simp del: execute_blocks.simps(2))
qed

subsection \<open>Preamble dispatch\<close>

text \<open>
  C1. When some preamble of the registry matches the submission, the preambles before the
  first matching one (in the iteration order of the registry, which is the order of the
  first registration of each name, see \<open>register_preamble_fresh\<close> and
  \<open>register_preamble_again\<close>) do not handle it, and \<^verbatim>\<open>execute_request_impl\<close>
  returns exactly what the \<^verbatim>\<open>apply\<close> of the first matching one returns for the
  null reply and the interpreter as it was: reply and interpreter. The interpreter after the request is the one that
  \<^verbatim>\<open>apply\<close> left, so the request itself has added nothing to the log: no block handed
  to the engine, no published result; and the result depends neither on the splitter nor
  on the engine.
\<close>

theorem preamble_short_circuit:
  assumes "\<exists>q\<in>set preamble. is_match (snd q) code"
  shows "\<exists>pre q post. preamble = pre @ q # post \<and>
           (\<forall>r\<in>set pre. \<not> is_match (snd r) code) \<and> is_match (snd q) code \<and>
           execute_request_impl c preamble execution_counter code s =
             Inr (apply_preamble (snd q) code JNull s)"
proof -
  from assms obtain pre q post where
    d: "preamble = pre @ q # post" "\<forall>r\<in>set pre. \<not> is_match (snd r) code" "is_match (snd q) code"
    using split_list_first_prop [of preamble "\<lambda>q. is_match (snd q) code"] by blast
  then have "dispatch_preamble preamble code s = Some (apply_preamble (snd q) code JNull s)"
    by (simp add: dispatch_first_match)
  then have "execute_request_impl c preamble execution_counter code s =
             Inr (apply_preamble (snd q) code JNull s)"
    by (simp add: execute_request_impl_def)
  with d show ?thesis by blast
qed

text \<open>
  The submission \<^verbatim>\<open>!ls ?\<close> is matched by introspection and by the shell;
  introspection, registered first, answers it.
\<close>

theorem preamble_short_circuit_witness:
  "(\<exists>q\<in>set scenario_preambles. is_match (snd q) ''!ls ?'') \<and>
   execute_request_impl scripted scenario_preambles 1 ''!ls ?'' \<lparr>m_processor = [], trace = []\<rparr> =
     Inr (JObject [(''status'', JString ''ok''), (''found'', JString ''true'')],
          \<lparr>m_processor = [], trace = []\<rparr>)"
proof -
  let ?s = "\<lparr>m_processor = [] :: string invocation list, trace = []\<rparr>"
  have some: "\<exists>q\<in>set scenario_preambles. is_match (snd q) ''!ls ?''"
    by (simp add: scenario_preambles_list answering_def)
  from preamble_short_circuit [OF some, of scripted 1 ?s] obtain pre q post where
    d: "scenario_preambles = pre @ q # post" "\<forall>r\<in>set pre. \<not> is_match (snd r) ''!ls ?''"
    and ex: "execute_request_impl scripted scenario_preambles 1 ''!ls ?'' ?s =
               Inr (apply_preamble (snd q) ''!ls ?'' JNull ?s)"
    by blast
  note l = d(1) [unfolded scenario_preambles_list]
  have "pre = []"
  proof (rule ccontr)
    assume "pre \<noteq> []"
    then obtain x xs where p: "pre = x # xs"
      by (cases pre) auto
    with l have "is_match (snd x) ''!ls ?''"
      by (auto simp: answering_def)
    with d(2) p show False by simp
  qed
  with l have "snd q = answering (contains ''?'')
      (JObject [(''status'', JString ''ok''), (''found'', JString ''true'')])"
    by auto
  with ex some show ?thesis
    by (simp add: answering_def)
qed

subsection \<open>Errors reported by the engine\<close>

text \<open>
  C2. Let no preamble match, let the loop get past the blocks before \<open>block\<close>, and let
  the call of the engine on \<open>block\<close> return a non-zero error level or a compilation
  result other than success. Then the request returns a reply whose status is
  \<^verbatim>\<open>error\<close>, and the blocks handed to the engine during the request are exactly the
  ones up to \<open>block\<close>: none of the blocks after it.
\<close>

theorem error_aborts:
  assumes nomatch: "\<forall>q\<in>set preamble. \<not> is_match (snd q) code"
    and blocks: "split_from_includes c (c_str code) = pre @ block # post"
    and reached: "execute_blocks c pre None None s = Inr (Completed cr out, s1)"
    and call: "process c (m_processor s1) block = (Returned n r v, e)"
    and failing: "n \<noteq> 0 \<or> r \<noteq> kSuccess"
  shows "\<exists>kernel_res s' evs.
           execute_request_impl c preamble execution_counter code s = Inr (kernel_res, s') \<and>
           json_get kernel_res ''status'' = Some (JString ''error'') \<and>
           trace s' = trace s @ evs \<and> processed evs = pre @ [block]"
proof -
  from execute_blocks_completed_trace [OF reached] obtain evs1 where
    e1: "trace s1 = trace s @ evs1" "processed evs1 = pre" by blast
  define s2 where "s2 = (if n \<noteq> 0
      then s1\<lparr>m_processor := cancelContinuation c e, trace := trace s1 @ [Process block, CancelContinuation]\<rparr>
      else s1\<lparr>m_processor := e, trace := trace s1 @ [Process block]\<rparr>)"
  have loop: "execute_blocks c (pre @ block # post) None None s =
                Inr (Return (get_error_reply ''ename'' ''evalue'' []), s2)"
    using failing
    by (auto simp add: execute_blocks_append reached execute_blocks_step_Returned [OF call] s2_def
             simp del: execute_blocks.simps(2))
  have ex: "execute_request_impl c preamble execution_counter code s =
              Inr (get_error_reply ''ename'' ''evalue'' [], s2)"
    by (simp add: execute_request_impl_def dispatch_no_match [OF nomatch] blocks loop)
  have tr: "trace s2 = trace s @ (evs1 @ (if n \<noteq> 0 then [Process block, CancelContinuation] else [Process block]))"
    by (simp add: s2_def e1)
  have pr: "processed (evs1 @ (if n \<noteq> 0 then [Process block, CancelContinuation] else [Process block])) = pre @ [block]"
    by (simp add: processed_append e1)
  from ex tr pr show ?thesis
    using error_reply_members(1) by blast
qed

text \<open>
  Three blocks; the engine accepts the first and reports a failure for the second. The
  third is not handed to it.
\<close>

theorem error_aborts_witness:
  "\<exists>kernel_res s' evs.
     execute_request_impl scripted scenario_preambles 7
        ''#include <vector>\<newline>int x = ;\<newline>#include <map>''
        \<lparr>m_processor = [Returned 0 kSuccess None, Returned 0 kFailure None], trace = []\<rparr> =
       Inr (kernel_res, s') \<and>
     json_get kernel_res ''status'' = Some (JString ''error'') \<and>
     trace s' = evs \<and> processed evs = [''#include <vector>'', ''int x = ;'']"
proof -
  let ?code = "''#include <vector>\<newline>int x = ;\<newline>#include <map>''"
  let ?s = "\<lparr>m_processor = [Returned 0 kSuccess None, Returned 0 kFailure (None :: string option)],
             trace = []\<rparr>"
  let ?s1 = "\<lparr>m_processor = [Returned 0 kFailure (None :: string option)],
              trace = [Process ''#include <vector>'']\<rparr>"
  have h1: "\<forall>q\<in>set scenario_preambles. \<not> is_match (snd q) ?code"
    by (rule scenario_no_match) simp_all
  have h2: "split_from_includes scripted (c_str ?code) = [''#include <vector>''] @ ''int x = ;'' # [''#include <map>'']"
    by code_simp
  have h3: "execute_blocks scripted [''#include <vector>''] None None ?s = Inr (Completed (Some kSuccess) None, ?s1)"
    by (simp add: try_process_def scripted_def)
  have h4: "process scripted (m_processor ?s1) ''int x = ;'' = (Returned 0 kFailure None, [])"
    by (simp add: scripted_def)
  have h5: "(0::int) \<noteq> 0 \<or> kFailure \<noteq> kSuccess"
    by simp
  from error_aborts [OF h1 h2 h3 h4 h5, where execution_counter = 7] show ?thesis
    by simp
qed

text \<open>
  C4, as the code has it. Under the hypotheses of C2, \<^verbatim>\<open>cancelContinuation\<close> is called
  exactly when the error level is not zero, and then it is the last thing the request
  does; a compilation result other than success that comes with error level zero gives
  the same error reply, and the continuation is not cancelled.
\<close>

theorem cancel_iff_errorlevel:
  assumes nomatch: "\<forall>q\<in>set preamble. \<not> is_match (snd q) code"
    and blocks: "split_from_includes c (c_str code) = pre @ block # post"
    and reached: "execute_blocks c pre None None s = Inr (Completed cr out, s1)"
    and call: "process c (m_processor s1) block = (Returned n r v, e)"
    and failing: "n \<noteq> 0 \<or> r \<noteq> kSuccess"
  shows "\<exists>s' evs.
           execute_request_impl c preamble execution_counter code s =
             Inr (get_error_reply ''ename'' ''evalue'' [], s') \<and>
           trace s' = trace s @ evs \<and>
           (CancelContinuation \<in> set evs) = (n \<noteq> 0) \<and>
           last evs = (if n \<noteq> 0 then CancelContinuation else Process block) \<and>
           m_processor s' = (if n \<noteq> 0 then cancelContinuation c e else e)"
proof -
  from execute_blocks_completed_trace [OF reached] obtain evs1 where
    e1: "trace s1 = trace s @ evs1" "CancelContinuation \<notin> set evs1" by blast
  define s2 where "s2 = (if n \<noteq> 0
      then s1\<lparr>m_processor := cancelContinuation c e, trace := trace s1 @ [Process block, CancelContinuation]\<rparr>
      else s1\<lparr>m_processor := e, trace := trace s1 @ [Process block]\<rparr>)"
  define evs where "evs = evs1 @ (if n \<noteq> 0 then [Process block, CancelContinuation] else [Process block])"
  have loop: "execute_blocks c (pre @ block # post) None None s =
                Inr (Return (get_error_reply ''ename'' ''evalue'' []), s2)"
    using failing
    by (auto simp add: execute_blocks_append reached execute_blocks_step_Returned [OF call] s2_def
             simp del: execute_blocks.simps(2))
  have ex: "execute_request_impl c preamble execution_counter code s =
              Inr (get_error_reply ''ename'' ''evalue'' [], s2)"
    by (simp add: execute_request_impl_def dispatch_no_match [OF nomatch] blocks loop)
  have tr: "trace s2 = trace s @ evs"
    by (simp add: s2_def e1 evs_def)
  have c1: "(CancelContinuation \<in> set evs) = (n \<noteq> 0)"
    using e1(2) by (simp add: evs_def)
  have c2: "last evs = (if n \<noteq> 0 then CancelContinuation else Process block)"
    by (simp add: evs_def)
  have c3: "m_processor s2 = (if n \<noteq> 0 then cancelContinuation c e else e)"
    by (simp add: s2_def)
  from ex tr c1 c2 c3 show ?thesis by blast
qed

text \<open>An unfinished definition: the engine returns error level 1 and expects more input.\<close>

theorem cancel_iff_errorlevel_witness:
  "\<exists>s' evs.
     execute_request_impl scripted scenario_preambles 7 ''int f() {''
        \<lparr>m_processor = [Returned 1 kMoreInputExpected None], trace = []\<rparr> =
       Inr (get_error_reply ''ename'' ''evalue'' [], s') \<and>
     trace s' = evs \<and> CancelContinuation \<in> set evs \<and> last evs = CancelContinuation \<and>
     m_processor s' = []"
proof -
  let ?s = "\<lparr>m_processor = [Returned 1 kMoreInputExpected (None :: string option)], trace = []\<rparr>"
  have h1: "\<forall>q\<in>set scenario_preambles. \<not> is_match (snd q) ''int f() {''"
    by (rule scenario_no_match) simp_all
  have h2: "split_from_includes scripted (c_str ''int f() {'') = [] @ ''int f() {'' # []"
    by code_simp
  have h3: "execute_blocks scripted [] None None ?s = Inr (Completed None None, ?s)"
    by simp
  have h4: "process scripted (m_processor ?s) ''int f() {'' = (Returned 1 kMoreInputExpected None, [])"
    by (simp add: scripted_def)
  have h5: "(1::int) \<noteq> 0 \<or> kMoreInputExpected \<noteq> kSuccess"
    by simp
  from cancel_iff_errorlevel [OF h1 h2 h3 h4 h5, where execution_counter = 7] show ?thesis
    by (simp add: scripted_def)
qed

text \<open>
  C4 as stated fails: a syntax error for which the engine returns error level zero and a
  failure gives the error reply, and \<^verbatim>\<open>cancelContinuation\<close> is not called.
\<close>

theorem no_cancel_counterexample:
  "execute_request_impl scripted scenario_preambles 7 ''int x = ;''
      \<lparr>m_processor = [Returned 0 kFailure None], trace = []\<rparr> =
     Inr (get_error_reply ''ename'' ''evalue'' [],
          \<lparr>m_processor = [], trace = [Process ''int x = ;'']\<rparr>) \<and>
   CancelContinuation \<notin> set [Process ''int x = ;'']"
  by code_simp

subsection \<open>Faults thrown by the engine\<close>

text \<open>
  C3, as the code has it. Let no preamble match, let the loop get past the blocks before
  \<open>block\<close>, and let the call of the engine on \<open>block\<close> throw. The fault is caught and
  reported, the error level stays zero and the continuation is not cancelled. What
  happens next depends on the compilation result that the call has stored before it
  threw or, if it has stored none, on the one left by the block before: if it is not
  success, the request returns the error reply and no further block is handed to the
  engine; if it is success, the loop goes on with the blocks after \<open>block\<close>.
\<close>

theorem caught_fault_outcome:
  assumes nomatch: "\<forall>q\<in>set preamble. \<not> is_match (snd q) code"
    and blocks: "split_from_includes c (c_str code) = pre @ block # post"
    and reached: "execute_blocks c pre None None s = Inr (Completed cr out, s1)"
    and call: "process c (m_processor s1) block = (Threw f rw vw, e)"
    and stored: "(case rw of None \<Rightarrow> cr | Some r \<Rightarrow> Some r) = Some r'"
  shows "execute_request_impl c preamble execution_counter code s =
           (if r' \<noteq> kSuccess then
              Inr (get_error_reply ''ename'' ''evalue'' [],
                   s1\<lparr>m_processor := e, trace := trace s1 @ Process block # catch_clause f\<rparr>)
            else
              (case execute_blocks c post (Some kSuccess) (case vw of None \<Rightarrow> out | Some v \<Rightarrow> v)
                      (s1\<lparr>m_processor := e, trace := trace s1 @ Process block # catch_clause f\<rparr>) of
                 Inl u \<Rightarrow> Inl u
               | Inr (Return kernel_res, s') \<Rightarrow> Inr (kernel_res, s')
               | Inr (Completed compilation_result output, s') \<Rightarrow>
                   publish_and_reply c execution_counter (pre @ block # post) output s'))"
proof -
  have "execute_blocks c (pre @ block # post) None None s =
          (if r' \<noteq> kSuccess then
             Inr (Return (get_error_reply ''ename'' ''evalue'' []),
                  s1\<lparr>m_processor := e, trace := trace s1 @ Process block # catch_clause f\<rparr>)
           else execute_blocks c post (Some kSuccess) (case vw of None \<Rightarrow> out | Some v \<Rightarrow> v)
                  (s1\<lparr>m_processor := e, trace := trace s1 @ Process block # catch_clause f\<rparr>))"
    by (simp add: execute_blocks_append reached execute_blocks_step_Threw [OF call] stored
             del: execute_blocks.simps(2))
  then show ?thesis
    by (simp add: execute_request_impl_def dispatch_no_match [OF nomatch] blocks)
qed

text \<open>
  The engine stores a failure and throws an exception that cannot diagnose itself: the
  request is aborted with the error reply.
\<close>

theorem caught_fault_outcome_witness:
  "execute_request_impl scripted scenario_preambles 7
      (''#include <vector>\<newline>throw 1;\<newline>#include <map>'')
      \<lparr>m_processor = [Returned 0 kSuccess None,
                      Threw (InterpreterException False ''bad'') (Some kFailure) (Some None)],
       trace = []\<rparr> =
     Inr (get_error_reply ''ename'' ''evalue'' [],
          \<lparr>m_processor = [],
           trace = [Process ''#include <vector>'', Process ''throw 1;'', Diagnose,
                    Cerr (''Caught an interpreter exception!\<newline>bad\<newline>'')]\<rparr>)"
proof -
  let ?code = "''#include <vector>\<newline>throw 1;\<newline>#include <map>''"
  let ?t = "Threw (InterpreterException False ''bad'') (Some kFailure) (Some (None :: string option))"
  let ?s = "\<lparr>m_processor = [Returned 0 kSuccess None, ?t], trace = []\<rparr>"
  let ?s1 = "\<lparr>m_processor = [?t], trace = [Process ''#include <vector>'']\<rparr>"
  have h1: "\<forall>q\<in>set scenario_preambles. \<not> is_match (snd q) ?code"
    by (rule scenario_no_match) simp_all
  have h2: "split_from_includes scripted (c_str ?code) = [''#include <vector>''] @ ''throw 1;'' # [''#include <map>'']"
    by code_simp
  have h3: "execute_blocks scripted [''#include <vector>''] None None ?s = Inr (Completed (Some kSuccess) None, ?s1)"
    by (simp add: try_process_def scripted_def)
  have h4: "process scripted (m_processor ?s1) ''throw 1;'' = (?t, [])"
    by (simp add: scripted_def)
  have h5: "(case Some kFailure of None \<Rightarrow> Some kSuccess | Some r \<Rightarrow> Some r) = Some kFailure"
    by simp
  from caught_fault_outcome [OF h1 h2 h3 h4 h5, where execution_counter = 7] show ?thesis
    by simp
qed

text \<open>
  C3 as stated fails: the second of three blocks throws and stores nothing, the
  compilation result is still the success of the first block, and the third block is
  handed to the engine after the catch; the reply is \<^verbatim>\<open>ok\<close>.
\<close>

theorem caught_fault_counterexample:
  "execute_request_impl scripted scenario_preambles 7
      (''#include <vector>\<newline>throw 1;\<newline>#include <map>'')
      \<lparr>m_processor = [Returned 0 kSuccess None, Threw (StdException ''boom'') None None,
                      Returned 0 kSuccess None],
       trace = []\<rparr> =
     Inr (JObject [(''status'', JString ''ok'')],
          \<lparr>m_processor = [],
           trace = [Process ''#include <vector>'', Process ''throw 1;'',
                    Cerr (''Caught a std::exception!\<newline>boom\<newline>''),
                    Process ''#include <map>'', CoutFlush]\<rparr>)"
  by code_simp

subsection \<open>Publication of the value\<close>

text \<open>
  C5. Let no preamble match and let every call of the engine on the blocks of the
  submission return error level zero and success; \<open>vs\<close> are the values of the calls.
  When the value of the last call is present, let the trimmed last block not be empty
  (see C10). Then the reply is \<^verbatim>\<open>ok\<close>, and what the request does is: it hands every
  block to the engine; it publishes one execution result, with the counter of the request
  and the printed value of the last call under \<^verbatim>\<open>text/plain\<close>, if that value is
  present and the trimmed last block does not end in a semicolon, and it publishes nothing
  otherwise; it flushes the standard output.
\<close>

theorem value_of_final_fragment_published:
  assumes nomatch: "\<forall>q\<in>set preamble. \<not> is_match (snd q) code"
    and succeed: "invocations c (m_processor s) (split_from_includes c (c_str code)) = map (Returned 0 kSuccess) vs"
    and nonempty: "vs \<noteq> [] \<and> last vs \<noteq> None \<longrightarrow> trim c (last (split_from_includes c (c_str code))) \<noteq> []"
  shows "\<exists>s'. execute_request_impl c preamble execution_counter code s =
                 Inr (JObject [(''status'', JString ''ok'')], s') \<and>
              trace s' = trace s @ map Process (split_from_includes c (c_str code)) @
                (case (if vs = [] then None else last vs) of
                   None \<Rightarrow> []
                 | Some v \<Rightarrow>
                     if last (trim c (last (split_from_includes c (c_str code)))) \<noteq> CHR '';''
                     then [PublishExecutionResult execution_counter
                             (JObject [(''text/plain'', JString (print_value c v))]) (JObject [])]
                     else []) @
                [CoutFlush]"
proof -
  let ?blocks = "split_from_includes c (c_str code)"
  have len: "length vs = length ?blocks"
    using succeed invocations_length [of c "m_processor s" ?blocks] by simp
  then have e: "(vs = []) = (?blocks = [])" by auto
  from all_succeed_loop [OF succeed, of None None] obtain s1 where
    loop: "execute_blocks c ?blocks None None s =
             Inr (Completed (if ?blocks = [] then None else Some kSuccess)
                            (if ?blocks = [] then None else last vs), s1)"
    and tr: "trace s1 = trace s @ map Process ?blocks" by blast
  show ?thesis
  proof (cases "if vs = [] then None else last vs")
    case None
    then have out: "(if ?blocks = [] then None else last vs) = None" using e by simp
    show ?thesis
      by (simp add: execute_request_impl_def dispatch_no_match [OF nomatch] Let_def loop out
            publish_and_reply_def None tr)
  next
    case (Some v)
    then have ne: "vs \<noteq> []" "last vs = Some v" by (auto split: if_splits)
    then have out: "(if ?blocks = [] then None else last vs) = Some v" using e by simp
    from ne nonempty have t: "trim c (last ?blocks) \<noteq> []" by simp
    from ne e have b: "?blocks \<noteq> []" by simp
    have b1: "back_of ?blocks = Inr (last ?blocks)"
      using b by (simp add: back_of_def split: list.splits)
    have b2: "back_of (trim c (last ?blocks)) = Inr (last (trim c (last ?blocks)))"
      using t by (simp add: back_of_def split: list.splits)
    show ?thesis
      by (simp add: execute_request_impl_def dispatch_no_match [OF nomatch] Let_def loop out
            publish_and_reply_def Some tr b1 b2)
  qed
qed

text \<open>
  The two scenarios of the specification: an expression whose value 42 is published with
  the counter 7, and a declaration after an inclusion directive, where both blocks succeed
  and nothing is published.
\<close>

theorem value_of_final_fragment_published_witness:
  "(\<exists>s'. execute_request_impl scripted scenario_preambles 7 ''int x = 41; x + 1''
            \<lparr>m_processor = [Returned 0 kSuccess (Some ''42'')], trace = []\<rparr> =
          Inr (JObject [(''status'', JString ''ok'')], s') \<and>
        trace s' = [Process ''int x = 41; x + 1'',
                    PublishExecutionResult 7 (JObject [(''text/plain'', JString ''42'')]) (JObject []),
                    CoutFlush]) \<and>
   (\<exists>s'. execute_request_impl scripted scenario_preambles 8
            (''#include <vector>\<newline>std::vector<int> v;'')
            \<lparr>m_processor = [Returned 0 kSuccess None, Returned 0 kSuccess None], trace = []\<rparr> =
          Inr (JObject [(''status'', JString ''ok'')], s') \<and>
        trace s' = [Process ''#include <vector>'', Process ''std::vector<int> v;'', CoutFlush])"
proof
  let ?code = "''int x = 41; x + 1''"
  let ?s = "\<lparr>m_processor = [Returned 0 kSuccess (Some ''42'')], trace = []\<rparr>"
  have h1: "\<forall>q\<in>set scenario_preambles. \<not> is_match (snd q) ?code"
    by (rule scenario_no_match) simp_all
  have b: "split_from_includes scripted (c_str ?code) = [?code]"
    by code_simp
  have t: "trim scripted ?code = ?code"
    by code_simp
  have h2: "invocations scripted (m_processor ?s) (split_from_includes scripted (c_str ?code)) =
              map (Returned 0 kSuccess) [Some ''42'']"
    by (simp add: b) (simp add: scripted_def)
  have h3: "[Some ''42''] \<noteq> [] \<and> last [Some ''42''] \<noteq> None \<longrightarrow>
              trim scripted (last (split_from_includes scripted (c_str ?code))) \<noteq> []"
    by (simp add: b t)
  from value_of_final_fragment_published [OF h1 h2 h3, where execution_counter = 7]
  show "\<exists>s'. execute_request_impl scripted scenario_preambles 7 ?code ?s =
          Inr (JObject [(''status'', JString ''ok'')], s') \<and>
        trace s' = [Process ?code,
                    PublishExecutionResult 7 (JObject [(''text/plain'', JString ''42'')]) (JObject []),
                    CoutFlush]"
    by (simp add: b t) (simp add: scripted_def)
next
  let ?code = "''#include <vector>\<newline>std::vector<int> v;''"
  let ?s = "\<lparr>m_processor = [Returned 0 kSuccess None, Returned 0 kSuccess (None :: string option)],
             trace = []\<rparr>"
  have h1: "\<forall>q\<in>set scenario_preambles. \<not> is_match (snd q) ?code"
    by (rule scenario_no_match) simp_all
  have b: "split_from_includes scripted (c_str ?code) = [''#include <vector>'', ''std::vector<int> v;'']"
    by code_simp
  have h2: "invocations scripted (m_processor ?s) (split_from_includes scripted (c_str ?code)) =
              map (Returned 0 kSuccess) [None, None]"
    by (simp add: b) (simp add: scripted_def)
  have h3: "[None, None :: string option] \<noteq> [] \<and> last [None, None :: string option] \<noteq> None \<longrightarrow>
              trim scripted (last (split_from_includes scripted (c_str ?code))) \<noteq> []"
    by simp
  from value_of_final_fragment_published [OF h1 h2 h3, where execution_counter = 8]
  show "\<exists>s'. execute_request_impl scripted scenario_preambles 8 ?code ?s =
          Inr (JObject [(''status'', JString ''ok'')], s') \<and>
        trace s' = [Process ''#include <vector>'', Process ''std::vector<int> v;'', CoutFlush]"
    by (simp add: b)
qed




subsection \<open>The error reply\<close>

text \<open>
  C6, as the code has it. When no preamble matches and the request returns a reply whose
  status is \<^verbatim>\<open>error\<close>, the reply has the name \<^verbatim>\<open>ename\<close>, the value
  \<^verbatim>\<open>evalue\<close> and an empty traceback.
\<close>

theorem error_reply_placeholders:
  assumes nomatch: "\<forall>q\<in>set preamble. \<not> is_match (snd q) code"
    and result: "execute_request_impl c preamble execution_counter code s = Inr (kernel_res, s')"
    and status: "json_get kernel_res ''status'' = Some (JString ''error'')"
  shows "json_get kernel_res ''ename'' = Some (JString ''ename'') \<and>
         json_get kernel_res ''evalue'' = Some (JString ''evalue'') \<and>
         json_get kernel_res ''traceback'' = Some (JArray [])"
proof -
  let ?blocks = "split_from_includes c (c_str code)"
  from result nomatch have
    cases: "(\<exists>s1. execute_blocks c ?blocks None None s = Inr (Return kernel_res, s1)) \<or>
            (\<exists>cr out s1. execute_blocks c ?blocks None None s = Inr (Completed cr out, s1) \<and>
                publish_and_reply c execution_counter ?blocks out s1 = Inr (kernel_res, s'))"
    by (auto simp: execute_request_impl_def dispatch_no_match Let_def
             split: sum.splits prod.splits loop_exit.splits)
  then show ?thesis
  proof
    assume "\<exists>s1. execute_blocks c ?blocks None None s = Inr (Return kernel_res, s1)"
    then have "kernel_res = get_error_reply ''ename'' ''evalue'' []"
      using execute_blocks_Return by blast
    then show ?thesis by (simp add: error_reply_members)
  next
    assume "\<exists>cr out s1. execute_blocks c ?blocks None None s = Inr (Completed cr out, s1) \<and>
                publish_and_reply c execution_counter ?blocks out s1 = Inr (kernel_res, s')"
    then have "kernel_res = json_set JNull ''status'' (JString ''ok'')"
      using publish_and_reply_ok by blast
    with status show ?thesis by simp
  qed
qed

text \<open>A syntax error reported by the engine.\<close>

theorem error_reply_placeholders_witness:
  "\<exists>kernel_res s'.
     execute_request_impl scripted scenario_preambles 7 ''int x = ;''
        \<lparr>m_processor = [Returned 0 kFailure None], trace = []\<rparr> = Inr (kernel_res, s') \<and>
     json_get kernel_res ''status'' = Some (JString ''error'') \<and>
     json_get kernel_res ''ename'' = Some (JString ''ename'') \<and>
     json_get kernel_res ''evalue'' = Some (JString ''evalue'') \<and>
     json_get kernel_res ''traceback'' = Some (JArray [])"
proof -
  let ?s = "\<lparr>m_processor = [Returned 0 kFailure (None :: string option)], trace = []\<rparr>"
  let ?s' = "\<lparr>m_processor = [] :: string invocation list, trace = [Process ''int x = ;'']\<rparr>"
  have h1: "\<forall>q\<in>set scenario_preambles. \<not> is_match (snd q) ''int x = ;''"
    by (rule scenario_no_match) simp_all
  have h2: "execute_request_impl scripted scenario_preambles 7 ''int x = ;'' ?s =
              Inr (get_error_reply ''ename'' ''evalue'' [], ?s')"
    by code_simp
  have h3: "json_get (get_error_reply ''ename'' ''evalue'' []) ''status'' = Some (JString ''error'')"
    by (rule error_reply_members)
  from error_reply_placeholders [OF h1 h2 h3] h2 h3 show ?thesis
    by blast
qed

text \<open>
  C6 as stated fails: a reply with the status \<^verbatim>\<open>error\<close> can come from a preamble,
  and then it carries what the preamble has put into it.
\<close>

theorem preamble_error_counterexample:
  "execute_request_impl scripted scenario_preambles 7 ''%nosuchmagic''
      \<lparr>m_processor = [], trace = []\<rparr> =
     Inr (get_error_reply ''UsageError'' ''unknown magic'' [], \<lparr>m_processor = [], trace = []\<rparr>) \<and>
   json_get (get_error_reply ''UsageError'' ''unknown magic'' []) ''status'' = Some (JString ''error'') \<and>
   json_get (get_error_reply ''UsageError'' ''unknown magic'' []) ''ename'' \<noteq> Some (JString ''ename'')"
  by code_simp

subsection \<open>Facts about the matcher\<close>

text \<open>
  Two syntactic approximations, used to reason about every input at once: whether a
  pattern can match without consuming a character, and the characters with which a
  non-empty match of a pattern can end.
\<close>

fun nullable :: "regex \<Rightarrow> bool" where
  "nullable (Atom a) = False"
| "nullable (Seq r1 r2) = (nullable r1 \<and> nullable r2)"
| "nullable (Alt r1 r2) = (nullable r1 \<or> nullable r2)"
| "nullable (Star r) = True"
| "nullable (Opt r) = True"
| "nullable (Group n r) = nullable r"
| "nullable EndOfInput = True"

fun ends_with :: "regex \<Rightarrow> char \<Rightarrow> bool" where
  "ends_with (Atom a) ch = atom_matches a ch"
| "ends_with (Seq r1 r2) ch = (ends_with r2 ch \<or> (nullable r2 \<and> ends_with r1 ch))"
| "ends_with (Alt r1 r2) ch = (ends_with r1 ch \<or> ends_with r2 ch)"
| "ends_with (Star r) ch = ends_with r ch"
| "ends_with (Opt r) ch = ends_with r ch"
| "ends_with (Group n r) ch = ends_with r ch"
| "ends_with EndOfInput ch = False"

lemma not_nullable_progress:
  "\<not> nullable r \<Longrightarrow> st' \<in> set (matches r st) \<Longrightarrow> length (fst st') < length (fst st)"
proof (induction r arbitrary: st st')
  case (Atom a)
  then show ?case by (cases "fst st") (auto split: if_splits)
next
  case (Seq r1 r2)
  from Seq.prems(2) obtain mid where
    m: "mid \<in> set (matches r1 st)" "st' \<in> set (matches r2 mid)" by auto
  from Seq.prems(1) have "\<not> nullable r1 \<or> \<not> nullable r2" by simp
  then show ?case
  proof
    assume "\<not> nullable r1"
    from Seq.IH(1) [OF this m(1)] matches_suffix [OF m(2)] show ?thesis by simp
  next
    assume "\<not> nullable r2"
    from Seq.IH(2) [OF this m(2)] matches_suffix [OF m(1)] show ?thesis by simp
  qed
next
  case (Alt r1 r2)
  from Alt.prems(1) have n: "\<not> nullable r1" "\<not> nullable r2" by simp_all
  from Alt.prems(2) have "st' \<in> set (matches r1 st) \<or> st' \<in> set (matches r2 st)" by simp
  then show ?case
  proof
    assume "st' \<in> set (matches r1 st)"
    from Alt.IH(1) [OF n(1) this] show ?thesis .
  next
    assume "st' \<in> set (matches r2 st)"
    from Alt.IH(2) [OF n(2) this] show ?thesis .
  qed
next
  case (Star r)
  then show ?case by simp
next
  case (Opt r)
  then show ?case by simp
next
  case (Group n r)
  from Group.prems(2) obtain mid where "mid \<in> set (matches r st)" "fst st' = fst mid"
    by auto
  with Group.IH [of mid st] Group.prems(1) show ?case by simp
next
  case EndOfInput
  then show ?case by simp
qed

text \<open>What a match consumes is a prefix of the input, and it ends as \<open>ends_with\<close> says.\<close>

definition consumes :: "(char \<Rightarrow> bool) \<Rightarrow> mstate \<Rightarrow> mstate \<Rightarrow> bool" where
  "consumes E st st' = (\<exists>cs. fst st = cs @ fst st' \<and> (cs = [] \<or> E (last cs)))"

lemma consumes_refl: "consumes E st st"
  by (simp add: consumes_def)

lemma consumes_trans:
  assumes "consumes E1 st mid" and "consumes E2 mid st'"
    and "\<And>ch. E1 ch \<Longrightarrow> fst mid = fst st' \<Longrightarrow> E ch" and "\<And>ch. E2 ch \<Longrightarrow> E ch"
  shows "consumes E st st'"
proof -
  from assms(1) obtain cs1 where 1: "fst st = cs1 @ fst mid" "cs1 = [] \<or> E1 (last cs1)"
    by (auto simp: consumes_def)
  from assms(2) obtain cs2 where 2: "fst mid = cs2 @ fst st'" "cs2 = [] \<or> E2 (last cs2)"
    by (auto simp: consumes_def)
  have "fst st = (cs1 @ cs2) @ fst st'" using 1(1) 2(1) by simp
  moreover have "cs1 @ cs2 = [] \<or> E (last (cs1 @ cs2))"
  proof (cases "cs2 = []")
    case True
    with 2(1) have "fst mid = fst st'" by simp
    with 1(2) True assms(3) show ?thesis by auto
  next
    case False
    with 2(2) assms(4) show ?thesis by auto
  qed
  ultimately show ?thesis unfolding consumes_def by blast
qed

lemma star_iter_consumes:
  assumes step: "\<And>st st'. st' \<in> set (step st) \<Longrightarrow> consumes E st st'"
  shows "st' \<in> set (star_iter step n st) \<Longrightarrow> consumes E st st'"
proof (induction n arbitrary: st st')
  case 0
  then show ?case by (simp add: consumes_refl)
next
  case (Suc n)
  from Suc.prems consider "st' = st"
    | mid where "mid \<in> set (step st)" "st' \<in> set (star_iter step n mid)"
    by auto
  then show ?case
  proof cases
    case 1
    then show ?thesis by (simp add: consumes_refl)
  next
    case 2
    from consumes_trans [OF step [OF 2(1)] Suc.IH [OF 2(2)]] show ?thesis by blast
  qed
qed

lemma matches_consumes:
  "st' \<in> set (matches r st) \<Longrightarrow> consumes (ends_with r) st st'"
proof (induction r arbitrary: st st')
  case (Atom a)
  then obtain ch where "fst st = ch # fst st'" "atom_matches a ch"
    by (cases "fst st") (auto split: if_splits)
  then have "fst st = [ch] @ fst st' \<and> ([ch] = [] \<or> ends_with (Atom a) (last [ch]))"
    by simp
  then show ?case unfolding consumes_def by blast
next
  case (Seq r1 r2)
  from Seq.prems obtain mid where
    m: "mid \<in> set (matches r1 st)" "st' \<in> set (matches r2 mid)" by auto
  have n: "nullable r2" if "fst mid = fst st'"
    using not_nullable_progress [OF _ m(2)] that by auto
  show ?case
    by (rule consumes_trans [OF Seq.IH(1) [OF m(1)] Seq.IH(2) [OF m(2)]]) (simp_all add: n)
next
  case (Alt r1 r2)
  from Alt.prems have "st' \<in> set (matches r1 st) \<or> st' \<in> set (matches r2 st)" by simp
  then show ?case
  proof
    assume "st' \<in> set (matches r1 st)"
    from Alt.IH(1) [OF this] show ?thesis by (auto simp: consumes_def)
  next
    assume "st' \<in> set (matches r2 st)"
    from Alt.IH(2) [OF this] show ?thesis by (auto simp: consumes_def)
  qed
next
  case (Star r)
  have "\<And>a b. b \<in> set (matches r (fst a, filter (\<lambda>g. fst g \<notin> set (groups r)) (snd a))) \<Longrightarrow>
          consumes (ends_with r) a b"
  proof -
    fix a b
    assume "b \<in> set (matches r (fst a, filter (\<lambda>g. fst g \<notin> set (groups r)) (snd a)))"
    from Star.IH [OF this] show "consumes (ends_with r) a b" by (simp add: consumes_def)
  qed
  from star_iter_consumes [where step = "\<lambda>st1. matches r (fst st1, filter (\<lambda>g. fst g \<notin> set (groups r)) (snd st1))"
      and E = "ends_with r", OF this]
  show ?case using Star.prems by simp
next
  case (Opt r)
  from Opt.prems have
    "st' = st \<or> st' \<in> set (matches r (fst st, filter (\<lambda>g. fst g \<notin> set (groups r)) (snd st)))"
    by auto
  then show ?case
  proof
    assume "st' = st"
    then show ?thesis by (simp add: consumes_refl)
  next
    assume "st' \<in> set (matches r (fst st, filter (\<lambda>g. fst g \<notin> set (groups r)) (snd st)))"
    from Opt.IH [OF this] show ?thesis by (simp add: consumes_def)
  qed
next
  case (Group n r)
  from Group.prems obtain mid where "mid \<in> set (matches r st)" "fst st' = fst mid"
    by auto
  with Group.IH [of mid st] show ?case by (simp add: consumes_def)
next
  case EndOfInput
  then have "st' = st" by (auto split: if_splits)
  then show ?case by (simp add: consumes_def)
qed

text \<open>
  The search for a pattern that ends with the end-of-input anchor and matches the empty
  input: it always finds a match, the match reaches to the end of the string, and a
  non-empty match ends with a character with which the pattern can end.
\<close>

lemma regex_search_from_anchored:
  assumes empty: "matches (Seq r EndOfInput) ([], []) \<noteq> []"
  shows "\<exists>m. regex_search_from (Seq r EndOfInput) k s = Some m \<and> k \<le> position m \<and>
             position m \<le> k + length s \<and> matched m = drop (position m - k) s \<and>
             (matched m = [] \<or> ends_with r (last s))"
proof (induction s arbitrary: k)
  case Nil
  from empty obtain st sts where "matches (Seq r EndOfInput) ([], []) = st # sts"
    by (cases "matches (Seq r EndOfInput) ([], [])") auto
  then show ?case by (simp del: matches.simps)
next
  case (Cons ch s)
  show ?case
  proof (cases "matches (Seq r EndOfInput) (ch # s, [])")
    case Nil
    from Cons.IH [of "Suc k"] obtain m where
      m: "regex_search_from (Seq r EndOfInput) (Suc k) s = Some m" "Suc k \<le> position m"
         "position m \<le> Suc k + length s" "matched m = drop (position m - Suc k) s"
         "matched m = [] \<or> ends_with r (last s)" by blast
    from m(2) have p: "position m - k = Suc (position m - Suc k)" by simp
    from m(4,5) have e: "matched m = [] \<or> ends_with r (last (ch # s))" by auto
    have "regex_search_from (Seq r EndOfInput) k (ch # s) = Some m"
      using Nil m(1) by (simp del: matches.simps)
    with m(2,3,4) p e show ?thesis by simp
  next
    case (Cons st sts)
    then have "st \<in> set (matches (Seq r EndOfInput) (ch # s, []))" by simp
    then have mid: "st \<in> set (matches r (ch # s, []))" "fst st = []"
      by (auto split: if_splits)
    from matches_consumes [OF mid(1)] mid(2) have e: "ends_with r (last (ch # s))"
      by (auto simp: consumes_def)
    have "regex_search_from (Seq r EndOfInput) k (ch # s) =
            Some \<lparr>position = k, matched = ch # s, sub_matches = snd st\<rparr>"
      using Cons mid(2) by (simp del: matches.simps)
    with e show ?thesis by simp
  qed
qed

lemma re_method_ends:
  "ends_with (Star (Group 1 (Seq exp (Opt (Atom (Lit CHR ''.'')))))) ch =
     (is_word_char ch \<or> ch \<in> set '':>)].'')"
  by (auto simp: exp_def)

subsection \<open>Completion candidates\<close>

text \<open>
  C8, as the code has it. The four rewrites turn the candidate of the scenario into
  \<^verbatim>\<open>foo(int x<#>#)\<close>: the placeholder around \<^verbatim>\<open>int\<close> is reduced to the type, and
  the unpaired markers of the tail stay. A candidate in the format of the engine, with a
  result type in front and a placeholder around a typed parameter, is rewritten to a
  string with no marker.
\<close>

theorem rewrite_candidate_scenario:
  "rewrite_candidate ''foo(<#int#> x<#>#)'' = ''foo(int x<#>#)'' \<and>
   rewrite_candidate ''[#int#]foo(<#int x#>)'' = ''foo(int)'' \<and>
   \<not> contains ''<#'' ''foo(int)'' \<and> \<not> contains ''#>'' ''foo(int)''"
  by code_simp

text \<open>C8 as stated fails: both markers occur in the rewritten candidate.\<close>

theorem rewrite_candidate_counterexample:
  "contains ''<#'' (rewrite_candidate ''foo(<#int#> x<#>#)'') \<and>
   contains ''#>'' (rewrite_candidate ''foo(<#int#> x<#>#)'')"
  by code_simp

subsection \<open>Inspection\<close>

text \<open>Within the depth of the stack the search is the one of \<open>regex_search\<close>.\<close>

declare regex_search_within.simps [simp del]

lemma and_then_Reached: "and_then (map Reached xs) f = concat (map f xs)"
  by (induction xs) (simp_all add: and_then_def)

lemma concat_map_filter:
  "concat (map f (filter P xs)) = concat (map (\<lambda>x. if P x then f x else []) xs)"
  by (induction xs) simp_all

lemma concat_map_if_singleton:
  "concat (map (\<lambda>x. if P x then [f x] else []) xs) = map f (filter P xs)"
  by (induction xs) simp_all

lemma star_iter_within_unbounded:
  assumes "\<And>st. step' st = map Reached (step st)"
  shows "star_iter_within step' n st = map Reached (star_iter step n st)"
proof (induction n arbitrary: st)
  case 0
  show ?case by simp
next
  case (Suc n)
  have "and_then (step' st) (\<lambda>st'. if progress st st' then star_iter_within step' n st' else []) =
          concat (map (\<lambda>st'. if progress st st' then map Reached (star_iter step n st') else [])
                      (step st))"
    by (simp add: assms and_then_Reached Suc.IH cong: if_cong)
  also have "\<dots> = map Reached (concat (map (star_iter step n) (filter (progress st) (step st))))"
    by (simp add: concat_map_filter map_concat comp_def if_distrib [of "map Reached"] cong: if_cong)
  finally show ?case by simp
qed

lemma matches_within_unbounded:
  "matches_within 0 r st = map Reached (matches r st)"
proof (induction r arbitrary: st)
  case (Atom a)
  show ?case by (cases "fst st") simp_all
next
  case (Seq r1 r2)
  have "matches_within 0 r2 = (\<lambda>x. map Reached (matches r2 x))"
    using Seq.IH(2) by auto
  then show ?case
    by (simp add: Seq.IH(1) and_then_Reached map_concat comp_def)
next
  case (Alt r1 r2)
  then show ?case by simp
next
  case (Star r)
  show ?case
    by (simp add: star_iter_within_unbounded [where step = "\<lambda>st1. matches r (fst st1, filter (\<lambda>g. fst g \<notin> set (groups r)) (snd st1))"] Star.IH)
next
  case (Opt r)
  have "and_then (map Reached (matches r (fst st, filter (\<lambda>g. fst g \<notin> set (groups r)) (snd st))))
          (\<lambda>st'. if progress st st' then [Reached st'] else []) =
        map Reached (filter (progress st) (matches r (fst st, filter (\<lambda>g. fst g \<notin> set (groups r)) (snd st))))"
    unfolding and_then_Reached by (rule concat_map_if_singleton)
  then show ?case by (simp add: Opt.IH)
next
  case (Group n r)
  show ?case
    by (simp add: Group.IH and_then_Reached comp_def concat_map_singleton)
next
  case EndOfInput
  show ?case by simp
qed

lemma regex_search_within_unbounded:
  "length s \<le> max_depth \<Longrightarrow>
   regex_search_within max_depth r k s = Inr (regex_search_from r k s)"
proof (induction s arbitrary: k)
  case Nil
  show ?case
    by (cases "matches r ([], [])")
       (simp_all add: regex_search_within.simps matches_within_unbounded
                 del: matches.simps matches_within.simps)
next
  case (Cons ch s)
  then have l: "length (ch # s) - max_depth = 0" and s: "length s \<le> max_depth"
    by simp_all
  show ?case
  proof (cases "matches r (ch # s, [])")
    case Nil
    then have "matches_within (length (ch # s) - max_depth) r (ch # s, []) = []"
      unfolding l by (simp add: matches_within_unbounded del: matches.simps matches_within.simps)
    then have "regex_search_within max_depth r k (ch # s) = regex_search_within max_depth r (Suc k) s"
      by (subst regex_search_within.simps) (simp del: matches.simps matches_within.simps)
    also have "\<dots> = Inr (regex_search_from r (Suc k) s)"
      by (rule Cons.IH [OF s])
    also have "regex_search_from r (Suc k) s = regex_search_from r k (ch # s)"
      using Nil by (simp del: matches.simps)
    finally show ?thesis .
  next
    case (Cons st sts)
    then have "matches_within (length (ch # s) - max_depth) r (ch # s, []) = Reached st # map Reached sts"
      unfolding l by (simp add: matches_within_unbounded del: matches.simps matches_within.simps)
    then have "regex_search_within max_depth r k (ch # s) =
        Inr (Some \<lparr>position = k, matched = take (length (ch # s) - length (fst st)) (ch # s),
                    sub_matches = snd st\<rparr>)"
      by (subst regex_search_within.simps) (simp del: matches.simps matches_within.simps)
    with Cons show ?thesis by (simp del: matches.simps)
  qed
qed

text \<open>
  On any stack, the paths tried before the stack is exhausted are those of \<open>matches\<close>,
  in the same order.
\<close>

lemma and_then_Exhausted: "and_then (Exhausted # outs) f = Exhausted # and_then outs f"
  by (simp add: and_then_def)

lemma agrees_all: "agrees (map Reached xs) xs"
  by (simp add: agrees_def)

lemma agrees_Nil: "agrees [] []"
  by (simp add: agrees_def)

lemma agrees_single: "agrees [Reached x] [x]"
  by (simp add: agrees_def)

lemma agrees_Exhausted: "agrees (Exhausted # rest) xs"
proof -
  have "Exhausted # rest = map Reached (take 0 xs) @ Exhausted # rest" by simp
  then show ?thesis unfolding agrees_def by blast
qed

lemma agrees_cut:
  assumes "agrees outs xs"
  shows "agrees (outs @ Exhausted # rest) (xs @ ys)"
proof -
  from assms consider "outs = map Reached xs"
    | k rest' where "outs = map Reached (take k xs) @ Exhausted # rest'"
    unfolding agrees_def by blast
  then show ?thesis
  proof cases
    case 1
    then have "outs @ Exhausted # rest = map Reached (take (length xs) (xs @ ys)) @ Exhausted # rest"
      by simp
    then show ?thesis unfolding agrees_def by blast
  next
    case 2
    have "take k xs = take (min k (length xs)) (xs @ ys)"
      by (simp add: min_def)
    with 2 have "outs @ Exhausted # rest =
        map Reached (take (min k (length xs)) (xs @ ys)) @ Exhausted # (rest' @ Exhausted # rest)"
      by simp
    then show ?thesis unfolding agrees_def by blast
  qed
qed

lemma agrees_append:
  assumes "agrees outs1 xs1" and "agrees outs2 xs2"
  shows "agrees (outs1 @ outs2) (xs1 @ xs2)"
proof -
  from assms(1) consider "outs1 = map Reached xs1"
    | k rest where "outs1 = map Reached (take k xs1) @ Exhausted # rest"
    unfolding agrees_def by blast
  then show ?thesis
  proof cases
    case 1
    from assms(2) consider "outs2 = map Reached xs2"
      | k rest where "outs2 = map Reached (take k xs2) @ Exhausted # rest"
      unfolding agrees_def by blast
    then show ?thesis
    proof cases
      case 1
      with \<open>outs1 = map Reached xs1\<close> show ?thesis by (simp add: agrees_def)
    next
      case 2
      with \<open>outs1 = map Reached xs1\<close> have
        "outs1 @ outs2 = map Reached (take (length xs1 + k) (xs1 @ xs2)) @ Exhausted # rest"
        by simp
      then show ?thesis unfolding agrees_def by blast
    qed
  next
    case 2
    have "agrees (map Reached (take k xs1)) (take k xs1)" by (rule agrees_all)
    from agrees_cut [OF this, of "rest @ outs2" "drop k xs1 @ xs2"]
    have "agrees (map Reached (take k xs1) @ Exhausted # rest @ outs2) (take k xs1 @ drop k xs1 @ xs2)" .
    moreover have "take k xs1 @ drop k xs1 @ xs2 = xs1 @ xs2"
      by (simp only: append_assoc [symmetric] append_take_drop_id)
    ultimately show ?thesis using 2 by simp
  qed
qed

lemma and_then_append: "and_then (outs1 @ outs2) f = and_then outs1 f @ and_then outs2 f"
  by (simp add: and_then_def)

lemma agrees_and_then_Reached:
  "(\<And>x. x \<in> set xs \<Longrightarrow> agrees (f x) (g x)) \<Longrightarrow>
   agrees (and_then (map Reached xs) f) (concat (map g xs))"
proof (induction xs)
  case Nil
  show ?case by (simp add: and_then_def agrees_Nil)
next
  case (Cons x xs)
  have "and_then (map Reached (x # xs)) f = f x @ and_then (map Reached xs) f"
    by (simp add: and_then_def)
  moreover have "agrees (f x @ and_then (map Reached xs) f) (g x @ concat (map g xs))"
    by (rule agrees_append) (simp_all add: Cons)
  ultimately show ?case by simp
qed

lemma agrees_and_then:
  assumes "agrees outs xs" and "\<And>x. x \<in> set xs \<Longrightarrow> agrees (f x) (g x)"
  shows "agrees (and_then outs f) (concat (map g xs))"
proof -
  from assms(1) consider "outs = map Reached xs"
    | k rest where "outs = map Reached (take k xs) @ Exhausted # rest"
    unfolding agrees_def by blast
  then show ?thesis
  proof cases
    case 1
    with agrees_and_then_Reached [of xs f g] assms(2) show ?thesis by simp
  next
    case 2
    have "agrees (and_then (map Reached (take k xs)) f) (concat (map g (take k xs)))"
      by (rule agrees_and_then_Reached) (auto dest: in_set_takeD intro: assms(2))
    from agrees_cut [OF this, of "and_then rest f" "concat (map g (drop k xs))"]
    have "agrees (and_then (map Reached (take k xs)) f @ Exhausted # and_then rest f)
            (concat (map g (take k xs)) @ concat (map g (drop k xs)))" .
    moreover have "concat (map g (take k xs)) @ concat (map g (drop k xs)) = concat (map g xs)"
      by (metis append_take_drop_id concat_append map_append)
    moreover have "and_then outs f = and_then (map Reached (take k xs)) f @ Exhausted # and_then rest f"
      by (simp add: 2 and_then_append and_then_Exhausted)
    ultimately show ?thesis by simp
  qed
qed

lemma star_iter_within_agrees:
  assumes "\<And>st. agrees (step' st) (step st)"
  shows "agrees (star_iter_within step' n st) (star_iter step n st)"
proof (induction n arbitrary: st)
  case 0
  show ?case by (simp add: agrees_single)
next
  case (Suc n)
  have "agrees (and_then (step' st) (\<lambda>st'. if progress st st' then star_iter_within step' n st' else []))
          (concat (map (\<lambda>st'. if progress st st' then star_iter step n st' else []) (step st)))"
    by (rule agrees_and_then [OF assms]) (simp add: Suc.IH agrees_Nil)
  moreover have "agrees [Reached st] [st]"
    by (rule agrees_single)
  ultimately have "agrees
      (and_then (step' st) (\<lambda>st'. if progress st st' then star_iter_within step' n st' else []) @ [Reached st])
      (concat (map (\<lambda>st'. if progress st st' then star_iter step n st' else []) (step st)) @ [st])"
    by (rule agrees_append)
  then show ?case by (simp add: concat_map_filter)
qed

lemma matches_within_agrees: "agrees (matches_within least r st) (matches r st)"
proof (induction r arbitrary: st)
  case (Atom a)
  show ?case by (cases "fst st") (simp_all add: agrees_Nil agrees_single agrees_Exhausted)
next
  case (Seq r1 r2)
  have "agrees (and_then (matches_within least r1 st) (matches_within least r2))
          (concat (map (matches r2) (matches r1 st)))"
    by (rule agrees_and_then) (simp_all add: Seq.IH)
  then show ?case by simp
next
  case (Alt r1 r2)
  show ?case by (simp add: agrees_append Alt.IH)
next
  case (Star r)
  show ?case
    by (simp add: star_iter_within_agrees Star.IH)
next
  case (Opt r)
  let ?st0 = "(fst st, filter (\<lambda>g. fst g \<notin> set (groups r)) (snd st))"
  have "agrees (and_then (matches_within least r ?st0) (\<lambda>st'. if progress st st' then [Reached st'] else []))
          (concat (map (\<lambda>st'. if progress st st' then [st'] else []) (matches r ?st0)))"
    by (rule agrees_and_then) (simp_all add: Opt.IH agrees_Nil agrees_single)
  moreover have "agrees [Reached st] [st]"
    by (rule agrees_single)
  ultimately have "agrees
      (and_then (matches_within least r ?st0) (\<lambda>st'. if progress st st' then [Reached st'] else []) @ [Reached st])
      (concat (map (\<lambda>st'. if progress st st' then [st'] else []) (matches r ?st0)) @ [st])"
    by (rule agrees_append)
  then show ?case
    by (simp add: concat_map_if_singleton [where f = "\<lambda>x. x", simplified])
next
  case (Group n r)
  let ?g = "\<lambda>st'. (fst st', AList.update n (take (length (fst st) - length (fst st')) (fst st)) (snd st'))"
  have "agrees (and_then (matches_within least r st) (\<lambda>st'. [Reached (?g st')]))
          (concat (map (\<lambda>st'. [?g st']) (matches r st)))"
    by (rule agrees_and_then) (simp_all add: Group.IH agrees_single)
  then show ?case by (simp add: concat_map_singleton)
next
  case EndOfInput
  show ?case by (simp add: agrees_Nil agrees_single)
qed

lemma agrees_head:
  assumes "agrees outs xs"
  shows "(outs = [] \<longrightarrow> xs = []) \<and> (\<forall>x rest. outs = Reached x # rest \<longrightarrow> (\<exists>ys. xs = x # ys))"
proof -
  from assms consider "outs = map Reached xs"
    | k rest where "outs = map Reached (take k xs) @ Exhausted # rest"
    unfolding agrees_def by blast
  then show ?thesis
  proof cases
    case 1
    then show ?thesis by (cases xs) auto
  next
    case 2
    show ?thesis
    proof (cases "take k xs")
      case Nil
      with 2 show ?thesis by simp
    next
      case (Cons y ys)
      then obtain zs where "xs = y # zs"
        by (cases xs; cases k) auto
      with 2 Cons show ?thesis by simp
    qed
  qed
qed

lemma regex_search_within_agrees:
  "regex_search_within max_depth r k s = Inl regex_exhausted \<or>
   regex_search_within max_depth r k s = Inr (regex_search_from r k s)"
proof (induction s arbitrary: k)
  case Nil
  let ?outs = "matches_within (length ([] :: string) - max_depth) r ([], [])"
  note h = agrees_head [OF matches_within_agrees [of "length ([] :: string) - max_depth" r "([], [])"]]
  show ?case
  proof (cases ?outs)
    case Nil
    with h have "matches r ([], []) = []" by simp
    with Nil show ?thesis
      by (subst (1 2) regex_search_within.simps) (simp del: matches.simps matches_within.simps)
  next
    case (Cons out outs)
    show ?thesis
    proof (cases out)
      case (Reached st)
      with h Cons obtain ys where "matches r ([], []) = st # ys" by blast
      with Cons Reached show ?thesis
        by (subst (1 2) regex_search_within.simps) (simp del: matches.simps matches_within.simps)
    next
      case Exhausted
      with Cons show ?thesis
        by (subst regex_search_within.simps) (simp del: matches.simps matches_within.simps)
    qed
  qed
next
  case (Cons ch s)
  let ?outs = "matches_within (length (ch # s) - max_depth) r (ch # s, [])"
  note h = agrees_head [OF matches_within_agrees [of "length (ch # s) - max_depth" r "(ch # s, [])"]]
  show ?case
  proof (cases ?outs)
    case Nil
    with h have p: "matches r (ch # s, []) = []" by simp
    from Nil have "regex_search_within max_depth r k (ch # s) = regex_search_within max_depth r (Suc k) s"
      by (subst regex_search_within.simps) (simp del: matches.simps matches_within.simps)
    moreover from p have "regex_search_from r k (ch # s) = regex_search_from r (Suc k) s"
      by (simp del: matches.simps)
    ultimately show ?thesis using Cons.IH [of "Suc k"] by simp
  next
    case c: (Cons out outs)
    show ?thesis
    proof (cases out)
      case (Reached st)
      with h c obtain ys where "matches r (ch # s, []) = st # ys" by blast
      with c Reached show ?thesis
        by (subst (1 2) regex_search_within.simps) (simp del: matches.simps matches_within.simps)
    next
      case Exhausted
      with c show ?thesis
        by (subst regex_search_within.simps) (simp del: matches.simps matches_within.simps)
    qed
  qed
qed

text \<open>
  A text of word characters that is longer than the stack is deep exhausts it: the first
  path that the search tries consumes the whole text with the inner star.
\<close>

lemma word_star_exhausts:
  assumes "\<forall>ch\<in>set w. is_word_char ch" and "0 < least" and "least \<le> length w" and "length w \<le> n"
  shows "\<exists>outs. star_iter_within (\<lambda>st1. matches_within least (Atom WordChar) (fst st1, snd st1)) n (w, caps) =
           Exhausted # outs"
  using assms
proof (induction w arbitrary: n)
  case Nil
  then show ?case by simp
next
  case (Cons ch w)
  from Cons.prems(4) obtain n' where n: "n = Suc n'" "length w \<le> n'"
    by (cases n) auto
  from Cons.prems(1) have ch: "is_word_char ch" and w: "\<forall>ch\<in>set w. is_word_char ch"
    by simp_all
  show ?case
  proof (cases "length w < least")
    case True
    with ch show ?thesis by (simp add: n(1) and_then_Exhausted)
  next
    case False
    then have "least \<le> length w" by simp
    from Cons.IH [OF w Cons.prems(2) this n(2)] obtain outs where
      "star_iter_within (\<lambda>st1. matches_within least (Atom WordChar) (fst st1, snd st1)) n' (w, caps) =
         Exhausted # outs" by blast
    with ch False show ?thesis
      by (simp add: n(1) and_then_def progress_def)
  qed
qed

lemma word_exhausts:
  assumes word: "\<forall>ch\<in>set w. is_word_char ch" and long: "max_depth < length w"
  shows "regex_search_within max_depth re_method k w = Inl regex_exhausted"
proof -
  let ?least = "length w - max_depth"
  from long have least: "0 < ?least" "?least \<le> length w" by simp_all
  have inner: "\<exists>outs. matches_within ?least (Star (Atom WordChar)) (w, caps) = Exhausted # outs" for caps
    using word_star_exhausts [OF word least, of "length w" caps] by simp
  have e: "\<exists>outs. matches_within ?least exp (w, caps) = Exhausted # outs" for caps
  proof -
    from inner [of caps] obtain outs where
      "matches_within ?least (Star (Atom WordChar)) (w, caps) = Exhausted # outs" by blast
    then show ?thesis
      unfolding exp_def
      by (simp add: and_then_Exhausted del: matches_within.simps(1,3,4,5))
  qed
  have g: "\<exists>outs. matches_within ?least (Group 1 (Seq exp (Opt (Atom (Lit CHR ''.''))))) (w, caps) =
             Exhausted # outs" for caps
  proof -
    from e [of caps] obtain outs where "matches_within ?least exp (w, caps) = Exhausted # outs"
      by blast
    then show ?thesis
      by (simp add: and_then_Exhausted del: matches_within.simps(1,5))
  qed
  from long obtain n where n: "length w = Suc n" by (cases w) auto
  from g [of "filter (\<lambda>g. fst g \<notin> set (groups (Group 1 (Seq exp (Opt (Atom (Lit CHR ''.''))))))) []"]
  obtain outs where
    "matches_within ?least (Group 1 (Seq exp (Opt (Atom (Lit CHR ''.'')))))
       (w, filter (\<lambda>g. fst g \<notin> set (groups (Group 1 (Seq exp (Opt (Atom (Lit CHR ''.''))))))) []) =
     Exhausted # outs" by blast
  then have "\<exists>outs. matches_within ?least re_method (w, []) = Exhausted # outs"
    unfolding re_method_def
    by (simp add: n and_then_Exhausted del: matches_within.simps(1,3,5,6))
  then obtain outs where "matches_within ?least re_method (w, []) = Exhausted # outs"
    by blast
  then show ?thesis
    by (subst regex_search_within.simps) (simp del: matches_within.simps)
qed

text \<open>
  C9, as the code has it. For every code and every cursor offset, \<^verbatim>\<open>substr\<close> does
  not throw, and the text before the cursor has a match of \<^verbatim>\<open>re_method\<close>: the
  match reaches to the end of the text, and it is empty whenever the text is empty or ends
  with a character that is neither a word character nor one of \<^verbatim>\<open>: > ) ] .\<close>
  (colon, closing angle, parenthesis and bracket, dot). The search of the library either
  finds this match, and then \<^verbatim>\<open>inspect\<close> is called with the matched text, the null
  reply and the interpreter as it was, and \<^verbatim>\<open>inspect_request_impl\<close> returns what
  \<^verbatim>\<open>inspect\<close> returns; or it exhausts the stack, which happens only for a text that is
  longer than the stack is deep, and then \<^verbatim>\<open>inspect_request_impl\<close> fails, as nothing
  catches the failure. The time that the search takes is not part of this model.
\<close>

theorem cursor_context_outcome:
  "\<exists>m. regex_search re_method (take (size_t_of_int cursor_pos) code) = Some m \<and>
       position m \<le> length (take (size_t_of_int cursor_pos) code) \<and>
       matched m = drop (position m) (take (size_t_of_int cursor_pos) code) \<and>
       (take (size_t_of_int cursor_pos) code = [] \<or>
        \<not> is_word_char (last (take (size_t_of_int cursor_pos) code)) \<and>
        last (take (size_t_of_int cursor_pos) code) \<notin> set '':>)].'' \<longrightarrow> matched m = []) \<and>
       (inspect_request_impl max_depth inspect code cursor_pos s = Inr (inspect (matched m) JNull s) \<or>
        max_depth < length (take (size_t_of_int cursor_pos) code) \<and>
        inspect_request_impl max_depth inspect code cursor_pos s = Inl regex_exhausted)"
proof -
  let ?dummy = "take (size_t_of_int cursor_pos) code"
  let ?r = "Star (Group 1 (Seq exp (Opt (Atom (Lit CHR ''.'')))))"
  have "matches (Seq ?r EndOfInput) ([], []) \<noteq> []"
    by simp
  from regex_search_from_anchored [OF this, of 0 ?dummy]
  obtain m where m: "regex_search re_method ?dummy = Some m" "position m \<le> length ?dummy"
      "matched m = drop (position m) ?dummy" "matched m = [] \<or> ends_with ?r (last ?dummy)"
    unfolding regex_search_def re_method_def by auto
  from m(3,4) have e: "?dummy = [] \<or> \<not> is_word_char (last ?dummy) \<and> last ?dummy \<notin> set '':>)].''
      \<longrightarrow> matched m = []"
    unfolding re_method_ends by auto
  have i: "inspect_request_impl max_depth inspect code cursor_pos s =
             (case regex_search_within max_depth re_method 0 ?dummy of
                Inl ex \<Rightarrow> Inl ex
              | Inr (Some magic) \<Rightarrow> Inr (inspect (matched magic) JNull s)
              | Inr None \<Rightarrow> Inr (JNull, s))"
    by (simp add: inspect_request_impl_def substr_def)
  have "inspect_request_impl max_depth inspect code cursor_pos s = Inr (inspect (matched m) JNull s) \<or>
        max_depth < length ?dummy \<and>
        inspect_request_impl max_depth inspect code cursor_pos s = Inl regex_exhausted"
  proof (cases "regex_search_within max_depth re_method 0 ?dummy = Inl regex_exhausted")
    case True
    have "max_depth < length ?dummy"
    proof (rule ccontr)
      assume "\<not> max_depth < length ?dummy"
      then have "length ?dummy \<le> max_depth" by (simp only: not_less)
      from regex_search_within_unbounded [OF this, of re_method 0] True show False
        by simp
    qed
    with True i show ?thesis by simp
  next
    case False
    with regex_search_within_agrees [of max_depth re_method 0 ?dummy] m(1)
    have "regex_search_within max_depth re_method 0 ?dummy = Inr (Some m)"
      by (simp add: regex_search_def)
    with i show ?thesis by simp
  qed
  with m(1,2,3) e show ?thesis by blast
qed

text \<open>
  With the cursor behind \<^verbatim>\<open>x = v.at\<close> the context is \<^verbatim>\<open>v.at\<close>; behind the
  malformed \<^verbatim>\<open>1 +\<close> it is empty. Here \<^verbatim>\<open>inspect\<close> puts the context into the reply,
  and the stack holds 20000 characters.
\<close>

theorem cursor_context_outcome_witness:
  "inspect_request_impl 20000 (\<lambda>m kernel_res s. (JString m, s)) ''1 + 2'' 3
      \<lparr>m_processor = (), trace = []\<rparr> =
     Inr (JString [], \<lparr>m_processor = (), trace = []\<rparr>) \<and>
   inspect_request_impl 20000 (\<lambda>m kernel_res s. (JString m, s)) ''x = v.at(0)'' 8
      \<lparr>m_processor = (), trace = []\<rparr> =
     Inr (JString ''v.at'', \<lparr>m_processor = (), trace = []\<rparr>)"
proof -
  let ?i = "\<lambda>(m :: string) (kernel_res :: xjson) (s :: unit interpreter_state). (JString m, s)"
  let ?s = "\<lparr>m_processor = (), trace = []\<rparr>"
  have d1: "take (size_t_of_int 3) ''1 + 2'' = ''1 +''"
    by (simp add: size_t_of_int_def)
  have d2: "take (size_t_of_int 8) ''x = v.at(0)'' = ''x = v.at''"
    by (simp add: size_t_of_int_def)
  have 1: "inspect_request_impl 20000 ?i ''1 + 2'' 3 ?s = Inr (JString [], ?s)"
    using cursor_context_outcome [of 3 "''1 + 2''" 20000 ?i ?s]
    by (auto simp: d1 is_word_char_def)
  have m2: "regex_search re_method ''x = v.at'' =
              Some \<lparr>position = 4, matched = ''v.at'', sub_matches = [(1, ''at'')]\<rparr>"
    by code_simp
  have 2: "inspect_request_impl 20000 ?i ''x = v.at(0)'' 8 ?s = Inr (JString ''v.at'', ?s)"
    using cursor_context_outcome [of 8 "''x = v.at(0)''" 20000 ?i ?s]
    by (auto simp: d2 m2)
  from 1 2 show ?thesis by simp
qed

text \<open>
  C9 as stated fails: for an identifier of 30000 characters and a stack that holds 20000
  of them, the search exhausts the stack and \<^verbatim>\<open>inspect_request_impl\<close> fails; it does
  so for every depth of the stack that the identifier exceeds.
\<close>

theorem long_identifier_counterexample:
  "inspect_request_impl 20000 (\<lambda>m kernel_res s. (JString m, s)) (replicate 30000 CHR ''a'') 30000
      \<lparr>m_processor = (), trace = []\<rparr> = Inl regex_exhausted"
proof -
  have w: "\<forall>ch\<in>set (replicate 30000 CHR ''a''). is_word_char ch"
    by (simp add: is_word_char_def)
  have "regex_search_within 20000 re_method 0 (replicate 30000 CHR ''a'') = Inl regex_exhausted"
    by (rule word_exhausts [OF w]) simp
  then show ?thesis
    by (simp add: inspect_request_impl_def substr_def size_t_of_int_def)
qed

subsection \<open>Output redirection\<close>

text \<open>
  C7. Redirecting and then restoring leaves both standard streams writing to the buffers
  they wrote to before the redirection, whatever those were. The redirection saves these
  two targets, and in between the streams write to the interpreter's two buffers.
\<close>

theorem redirect_restore_roundtrip:
  "cout_rdbuf (restore_output (redirect_output s)) = cout_rdbuf s \<and>
   cerr_rdbuf (restore_output (redirect_output s)) = cerr_rdbuf s \<and>
   cout_rdbuf (redirect_output s) = Some (m_cout_buffer s) \<and>
   cerr_rdbuf (redirect_output s) = Some (m_cerr_buffer s) \<and>
   p_cout_strbuf (redirect_output s) = cout_rdbuf s \<and>
   p_cerr_strbuf (redirect_output s) = cerr_rdbuf s"
  by (simp add: redirect_output_def restore_output_def Let_def)

end
